theory Spec2Isabelle
  imports Main "HOL-Library.Word" "HOL-Library.Monad_Syntax"
begin

unbundle bit_operations_syntax

section \<open>The heap of mm.c: memory, raw heap service, macros\<close>

text \<open>
  Addresses are natural numbers; the heap is an array of bytes (little endian, as on
  x86-64, the target of the source).  Values read from or written to the heap are machine
  words: \<open>unsigned int\<close> is \<open>32 word\<close>, \<open>size_t\<close> and \<open>unsigned long\<close> are \<open>64 word\<close>.
  Pointer arithmetic \<open>p + n\<close> is addition of addresses; \<open>p - n\<close> is truncated subtraction
  (in C a pointer below the object is undefined).
\<close>

type_synonym addr = nat
type_synonym memory = "addr \<Rightarrow> 8 word"

record mm_state =
  mem :: memory
  mem_brk :: addr
  mem_max_addr :: addr
  heap_listp :: addr
  seg_list_start :: addr
  uninit_size :: "64 word"

text \<open>
  \<open>mem_brk\<close> and \<open>mem_max_addr\<close> are the state of the raw heap service (memlib), which is
  not part of the sources.  \<open>uninit_size\<close> stands for the indeterminate value that the
  local variable \<open>size\<close> of \<open>extend_heap\<close> holds before its first assignment.
\<close>

definition WSIZE :: nat where "WSIZE = 4"
definition DSIZE :: nat where "DSIZE = 8"
definition CHUNKSIZE :: "64 word" where "CHUNKSIZE = 464"
definition BASEADDR :: nat where "BASEADDR = 0x800000000"
definition SEG_NUM :: nat where "SEG_NUM = 14"

text \<open>The value \<open>(void *)-1\<close>.\<close>
definition MINUS1 :: addr where "MINUS1 = 2 ^ 64 - 1"

definition load32 :: "memory \<Rightarrow> addr \<Rightarrow> 32 word" where
  "load32 m p = ucast (m p) OR push_bit 8 (ucast (m (p + 1)))
                OR push_bit 16 (ucast (m (p + 2))) OR push_bit 24 (ucast (m (p + 3)))"

definition store32 :: "memory \<Rightarrow> addr \<Rightarrow> 32 word \<Rightarrow> memory" where
  "store32 m p v = m(p := ucast v, p + 1 := ucast (drop_bit 8 v),
                     p + 2 := ucast (drop_bit 16 v), p + 3 := ucast (drop_bit 24 v))"

definition load64 :: "memory \<Rightarrow> addr \<Rightarrow> 64 word" where
  "load64 m p = ucast (load32 m p) OR push_bit 32 (ucast (load32 m (p + 4)))"

definition store64 :: "memory \<Rightarrow> addr \<Rightarrow> 64 word \<Rightarrow> memory" where
  "store64 m p v = store32 (store32 m p (ucast v)) (p + 4) (ucast (drop_bit 32 v))"

text \<open>\<open>GET(p)\<close> and \<open>PUT(p, val)\<close>: one \<open>unsigned int\<close> at address \<open>p\<close>.\<close>

definition GET :: "mm_state \<Rightarrow> addr \<Rightarrow> 32 word" where
  "GET s p = load32 (mem s) p"

definition PUT :: "addr \<Rightarrow> 32 word \<Rightarrow> mm_state \<Rightarrow> mm_state" where
  "PUT p val s = s\<lparr>mem := store32 (mem s) p val\<rparr>"

text \<open>\<open>*(unsigned long * )(p)\<close>, read and written: the directory slots.\<close>

definition GET8 :: "mm_state \<Rightarrow> addr \<Rightarrow> 64 word" where
  "GET8 s p = load64 (mem s) p"

definition PUT8 :: "addr \<Rightarrow> 64 word \<Rightarrow> mm_state \<Rightarrow> mm_state" where
  "PUT8 p val s = s\<lparr>mem := store64 (mem s) p val\<rparr>"

definition PACK :: "64 word \<Rightarrow> 64 word \<Rightarrow> 64 word" where
  "PACK sz alloc = sz OR alloc"

definition GET_PREV :: "mm_state \<Rightarrow> addr \<Rightarrow> 32 word" where
  "GET_PREV s p = GET s p"

definition SET_PREV :: "addr \<Rightarrow> 32 word \<Rightarrow> mm_state \<Rightarrow> mm_state" where
  "SET_PREV p val s = PUT p val s"

definition GET_NEXT :: "mm_state \<Rightarrow> addr \<Rightarrow> 32 word" where
  "GET_NEXT s p = GET s (p + WSIZE)"

definition SET_NEXT :: "addr \<Rightarrow> 32 word \<Rightarrow> mm_state \<Rightarrow> mm_state" where
  "SET_NEXT p val s = PUT (p + WSIZE) val s"

definition OFFSET_REAL :: "32 word \<Rightarrow> addr" where
  "OFFSET_REAL off = unat off + BASEADDR"

text \<open>\<open>REAL_OFFSET(r)\<close>: \<open>(unsigned int)((unsigned long)(r) - BASEADDR)\<close>.\<close>

definition REAL_OFFSET :: "64 word \<Rightarrow> 32 word" where
  "REAL_OFFSET r = ucast (r - of_nat BASEADDR)"

definition GET_SIZE :: "mm_state \<Rightarrow> addr \<Rightarrow> 32 word" where
  "GET_SIZE s p = GET s p AND NOT 7"

definition GET_ALLOC :: "mm_state \<Rightarrow> addr \<Rightarrow> 32 word" where
  "GET_ALLOC s p = GET s p AND 1"

definition HDRP :: "addr \<Rightarrow> addr" where
  "HDRP bp = bp - WSIZE"

definition FTRP :: "mm_state \<Rightarrow> addr \<Rightarrow> addr" where
  "FTRP s bp = bp + unat (GET_SIZE s (HDRP bp)) - DSIZE"

definition NEXT_BLKP :: "mm_state \<Rightarrow> addr \<Rightarrow> addr" where
  "NEXT_BLKP s bp = bp + unat (GET_SIZE s (bp - WSIZE))"

definition PREV_BLKP :: "mm_state \<Rightarrow> addr \<Rightarrow> addr" where
  "PREV_BLKP s bp = bp - unat (GET_SIZE s (bp - DSIZE))"

definition GET_PREV_ALLOC :: "mm_state \<Rightarrow> addr \<Rightarrow> 32 word" where
  "GET_PREV_ALLOC s p = GET s (HDRP p) AND 2"

subsection \<open>The raw heap service\<close>

text \<open>
  Modelled from the spec: \<open>mem_sbrk\<close>, \<open>mem_heap_lo\<close> and \<open>mem_heap_hi\<close> (memlib.c is not
  among the sources).  \<open>sbrk(n)\<close> extends the heap at its high end by exactly \<open>n\<close> bytes and
  returns the previous high end, or reports an error and changes nothing; the error value
  is \<open>(void * )-1\<close>, which is what the callers in mm.c test for.  The service refuses when
  the arena, which ends at \<open>mem_max_addr\<close>, is exhausted.  The heap starts at \<open>BASE\<close>, and
  \<open>heap_hi\<close> is the address of its last byte.
\<close>

definition mem_sbrk :: "64 word \<Rightarrow> mm_state \<Rightarrow> addr \<times> mm_state" where
  "mem_sbrk incr s =
     (if mem_brk s + unat incr > mem_max_addr s then (MINUS1, s)
      else (mem_brk s, s\<lparr>mem_brk := mem_brk s + unat incr\<rparr>))"

definition mem_heap_lo :: "mm_state \<Rightarrow> addr" where
  "mem_heap_lo s = BASEADDR"

definition mem_heap_hi :: "mm_state \<Rightarrow> addr" where
  "mem_heap_hi s = mem_brk s - 1"

section \<open>The segregated free lists\<close>

text \<open>The chain of comparisons of \<open>get_seg_listp\<close>, which selects \<open>seg_index\<close>.\<close>

definition seg_index :: "64 word \<Rightarrow> nat" where
  "seg_index sz =
     (if sz < 16 then 0 else if sz < 32 then 1 else if sz < 64 then 2
      else if sz < 128 then 3 else if sz < 256 then 4 else if sz < 480 then 5
      else if sz < 960 then 6 else if sz < 1920 then 7 else if sz < 3840 then 8
      else if sz < 7680 then 9 else if sz < 15360 then 10 else if sz < 30720 then 11
      else if sz < 61440 then 12 else 13)"

definition get_seg_listp :: "mm_state \<Rightarrow> 64 word \<Rightarrow> addr" where
  "get_seg_listp s sz = seg_list_start s + seg_index sz * DSIZE"

definition add_free_block :: "addr \<Rightarrow> mm_state \<Rightarrow> mm_state" where
  "add_free_block ptr s =
     (let free_listp = get_seg_listp s (ucast (GET_SIZE s (HDRP ptr)));
          first_free = GET8 s free_listp
      in if first_free = 0 then
           SET_NEXT ptr 0 (SET_PREV ptr 0 (PUT8 free_listp (of_nat ptr) s))
         else
           SET_PREV (unat first_free) (ucast ((of_nat ptr :: 64 word) - of_nat BASEADDR))
             (PUT8 free_listp (of_nat ptr)
               (SET_NEXT ptr (ucast (first_free - of_nat BASEADDR))
                 (SET_PREV ptr 0 s))))"

definition remove_free_block :: "addr \<Rightarrow> mm_state \<Rightarrow> mm_state" where
  "remove_free_block ptr s =
     (let free_listp = get_seg_listp s (ucast (GET_SIZE s (HDRP ptr)));
          prev = GET_PREV s ptr;
          next = GET_NEXT s ptr
      in if prev = 0 then
           (if next = 0 then PUT8 free_listp 0 s
            else SET_PREV (OFFSET_REAL next) 0
                   (PUT8 free_listp (ucast next + of_nat BASEADDR) s))
         else
           (if next = 0 then SET_NEXT (OFFSET_REAL prev) 0 s
            else SET_NEXT (OFFSET_REAL prev) next
                   (SET_PREV (OFFSET_REAL next) prev s)))"

section \<open>Coalescing, placement, heap extension\<close>

definition coalesce :: "addr \<Rightarrow> mm_state \<Rightarrow> addr \<times> mm_state" where
  "coalesce ptr s =
     (let prev_alloc = GET_PREV_ALLOC s ptr;
          next_alloc = GET_ALLOC s (HDRP (NEXT_BLKP s ptr));
          sz = (ucast (GET_SIZE s (HDRP ptr)) :: 64 word)
      in if prev_alloc \<noteq> 0 \<and> next_alloc \<noteq> 0 then (ptr, s)
         else
           let s = remove_free_block ptr s
           in if prev_alloc \<noteq> 0 \<and> next_alloc = 0 then
                let s = remove_free_block (NEXT_BLKP s ptr) s;
                    sz = sz + ucast (GET_SIZE s (HDRP (NEXT_BLKP s ptr)));
                    s = PUT (HDRP ptr) (ucast (PACK sz 2)) s;
                    s = PUT (FTRP s ptr) (ucast (PACK sz 0)) s
                in (ptr, add_free_block ptr s)
              else if prev_alloc = 0 \<and> next_alloc \<noteq> 0 then
                let s = remove_free_block (PREV_BLKP s ptr) s;
                    sz = sz + ucast (GET_SIZE s (HDRP (PREV_BLKP s ptr)));
                    s = PUT (FTRP s ptr) (ucast (PACK sz 0)) s;
                    s = PUT (HDRP (PREV_BLKP s ptr))
                          (ucast (PACK sz (ucast (GET_PREV_ALLOC s (PREV_BLKP s ptr))))) s;
                    ptr = PREV_BLKP s ptr
                in (ptr, add_free_block ptr s)
              else
                let s = remove_free_block (PREV_BLKP s ptr) s;
                    s = remove_free_block (NEXT_BLKP s ptr) s;
                    sz = sz + ucast (GET_SIZE s (HDRP (NEXT_BLKP s ptr))
                                     + GET_SIZE s (HDRP (PREV_BLKP s ptr)));
                    s = PUT (HDRP (PREV_BLKP s ptr))
                          (ucast (PACK sz (ucast (GET_PREV_ALLOC s (PREV_BLKP s ptr))))) s;
                    s = PUT (FTRP s (NEXT_BLKP s ptr)) (ucast (PACK sz 0)) s;
                    ptr = PREV_BLKP s ptr
                in (ptr, add_free_block ptr s))"

definition place :: "addr \<Rightarrow> 64 word \<Rightarrow> mm_state \<Rightarrow> mm_state" where
  "place ptr asize s =
     (let csize = (ucast (GET_SIZE s (HDRP ptr)) :: 64 word);
          prev_alloc = (ucast (GET_PREV_ALLOC s ptr) :: 64 word);
          s = remove_free_block ptr s
      in if csize - asize \<ge> 2 * of_nat DSIZE then
           let s = PUT (HDRP ptr) (ucast (PACK asize (prev_alloc OR 1))) s;
               ptr = NEXT_BLKP s ptr;
               s = PUT (HDRP ptr) (ucast (PACK (csize - asize) 2)) s;
               s = PUT (FTRP s ptr) (ucast (PACK (csize - asize) 0)) s
           in add_free_block ptr s
         else
           let s = PUT (HDRP ptr) (ucast (PACK csize (prev_alloc OR 1))) s;
               ptr = NEXT_BLKP s ptr
           in if ptr \<noteq> 0 then PUT (HDRP ptr) (GET s (HDRP ptr) OR 2) s else s)"

text \<open>The size computed by \<open>extend_heap\<close> from \<open>words\<close> (its two assignments to \<open>size\<close>).\<close>

definition extend_size :: "64 word \<Rightarrow> 64 word" where
  "extend_size words =
     (let sz = (if words mod 2 \<noteq> 0 then (words + 1) * of_nat WSIZE else words * of_nat WSIZE)
      in if sz > of_nat DSIZE then sz else of_nat DSIZE)"

text \<open>The new free block: header, footer and the new epilogue header.\<close>

definition extend_init_block :: "addr \<Rightarrow> 64 word \<Rightarrow> mm_state \<Rightarrow> mm_state" where
  "extend_init_block bp sz s =
     (let s = PUT (HDRP bp) (ucast (PACK sz (ucast (GET_PREV_ALLOC s bp)))) s;
          s = PUT (FTRP s bp) (ucast (PACK sz 0)) s;
          s = PUT (HDRP (NEXT_BLKP s bp)) (ucast (PACK 0 1)) s
      in s)"

definition extend_heap :: "64 word \<Rightarrow> mm_state \<Rightarrow> addr \<times> mm_state" where
  "extend_heap words s =
     (let end = mem_heap_hi s + 1;
          sz = uninit_size s;
          sz = (if GET_PREV_ALLOC s end = 0
                then sz - ucast (GET_SIZE s (HDRP (PREV_BLKP s end))) else sz);
          sz = extend_size words;
          (bp, s) = mem_sbrk sz s
      in if bp = MINUS1 then (0, s)
         else
           let s = extend_init_block bp sz s;
               s = (if sz \<ge> 2 * of_nat DSIZE then add_free_block bp s else s)
           in coalesce bp s)"

section \<open>Initialisation\<close>

text \<open>The loop of \<open>mm_init\<close> over the directory slots; the flag is False when \<open>mem_sbrk\<close> failed.\<close>

fun mm_init_slots :: "nat \<Rightarrow> mm_state \<Rightarrow> bool \<times> mm_state" where
  "mm_init_slots 0 s = (True, s)"
| "mm_init_slots (Suc n) s =
     (let (seg_listp, s) = mem_sbrk (2 * of_nat WSIZE) s
      in if seg_listp = MINUS1 then (False, s)
         else mm_init_slots n (PUT (seg_listp + 1 * WSIZE) 0 (PUT seg_listp 0 s)))"

definition mm_init :: "mm_state \<Rightarrow> int \<times> mm_state" where
  "mm_init s =
     (let s = s\<lparr>seg_list_start := BASEADDR\<rparr>;
          (ok, s) = mm_init_slots SEG_NUM s
      in if \<not> ok then (-1, s)
         else
           let (p, s) = mem_sbrk (4 * of_nat WSIZE) s;
               s = s\<lparr>heap_listp := p\<rparr>
           in if p = MINUS1 then (-1, s)
              else
                let s = PUT (heap_listp s) 0 s;
                    s = PUT (heap_listp s + 1 * WSIZE) (ucast (PACK (of_nat DSIZE) 1)) s;
                    s = PUT (heap_listp s + 2 * WSIZE) (ucast (PACK (of_nat DSIZE) 1)) s;
                    s = PUT (heap_listp s + 3 * WSIZE) (ucast (PACK 0 3)) s;
                    s = s\<lparr>heap_listp := heap_listp s + 2 * WSIZE\<rparr>;
                    (bp, s) = extend_heap (CHUNKSIZE div of_nat WSIZE) s
                in if bp = 0 then (-1, s) else (0, s))"

section \<open>Searching the free lists\<close>

text \<open>
  The two \<open>while\<close> loops of \<open>find_seg_fit\<close> follow the next-links stored in the heap; on a
  cyclic list they do not return, which is the value \<open>None\<close>.  The null pointer is 0.
\<close>

partial_function (option) first_fit_loop :: "64 word \<Rightarrow> addr \<Rightarrow> mm_state \<Rightarrow> addr option" where
  "first_fit_loop asize bp s =
     (if GET_NEXT s bp \<noteq> 0 then
        let bp = OFFSET_REAL (GET_NEXT s bp)
        in if asize \<le> ucast (GET_SIZE s (HDRP bp)) then Some bp
           else first_fit_loop asize bp s
      else Some 0)"

partial_function (option) best_fit_loop ::
    "64 word \<Rightarrow> addr \<Rightarrow> 64 word \<Rightarrow> addr \<Rightarrow> mm_state \<Rightarrow> addr option" where
  "best_fit_loop asize bp small_size result s =
     (if GET_NEXT s bp \<noteq> 0 then
        let bp = OFFSET_REAL (GET_NEXT s bp);
            block_size = (ucast (GET_SIZE s (HDRP bp)) :: 64 word)
        in if asize = block_size then Some bp
           else if asize < block_size \<and> (result = 0 \<or> block_size < small_size)
                then best_fit_loop asize bp block_size bp s
                else best_fit_loop asize bp small_size result s
      else Some result)"

definition find_seg_fit :: "64 word \<Rightarrow> addr \<Rightarrow> mm_state \<Rightarrow> addr option" where
  "find_seg_fit asize free_listp s =
     (let first_free = GET8 s free_listp
      in if first_free = 0 then Some 0
         else
           let bp = unat first_free
           in if asize < 960 then
                (if asize \<le> ucast (GET_SIZE s (HDRP bp)) then Some bp
                 else first_fit_loop asize bp s)
              else
                let block_size = (ucast (GET_SIZE s (HDRP bp)) :: 64 word)
                in if asize = block_size then Some bp
                   else if asize < block_size then best_fit_loop asize bp block_size bp s
                   else best_fit_loop asize bp 0 0 s)"

partial_function (option) find_fit_loop :: "64 word \<Rightarrow> addr \<Rightarrow> mm_state \<Rightarrow> addr option" where
  "find_fit_loop asize free_listp s =
     (if free_listp < seg_list_start s + (SEG_NUM - 1) * DSIZE then
        let free_listp = free_listp + DSIZE
        in case find_seg_fit asize free_listp s of
             None \<Rightarrow> None
           | Some fit \<Rightarrow> if fit \<noteq> 0 then Some fit else find_fit_loop asize free_listp s
      else find_seg_fit asize free_listp s)"

definition find_fit :: "64 word \<Rightarrow> mm_state \<Rightarrow> addr option" where
  "find_fit asize s =
     (let free_listp = get_seg_listp s asize
      in case find_seg_fit asize free_listp s of
           None \<Rightarrow> None
         | Some fit \<Rightarrow> if fit \<noteq> 0 then Some fit else find_fit_loop asize free_listp s)"

section \<open>The exported operations\<close>

text \<open>The adjusted block size computed by \<open>malloc\<close>.\<close>

definition adjust_size :: "64 word \<Rightarrow> 64 word" where
  "adjust_size sz =
     (if sz \<le> of_nat DSIZE then 2 * of_nat DSIZE
      else of_nat DSIZE * ((sz + of_nat WSIZE + (of_nat DSIZE - 1)) div of_nat DSIZE))"

definition malloc :: "64 word \<Rightarrow> mm_state \<Rightarrow> (addr \<times> mm_state) option" where
  "malloc sz s =
     (let s = (if heap_listp s = 0 then snd (mm_init s) else s)
      in if sz = 0 then Some (0, s)
         else
           let asize = adjust_size sz
           in case find_fit asize s of
                None \<Rightarrow> None
              | Some ptr \<Rightarrow>
                  if ptr \<noteq> 0 then Some (ptr, place ptr asize s)
                  else
                    let extendsize = (if asize > CHUNKSIZE then asize else CHUNKSIZE);
                        (ptr, s) = extend_heap (extendsize div of_nat WSIZE) s
                    in if ptr = 0 then Some (0, s)
                       else Some (ptr, place ptr asize s))"

definition free :: "addr \<Rightarrow> mm_state \<Rightarrow> mm_state" where
  "free ptr s =
     (if ptr = 0 then s
      else if ptr > mem_heap_hi s \<or> ptr < mem_heap_lo s then s
      else
        let sz = (ucast (GET_SIZE s (HDRP ptr)) :: 64 word);
            s = PUT (HDRP ptr) (ucast (PACK sz (ucast (GET_PREV_ALLOC s ptr)))) s;
            s = PUT (FTRP s ptr) (ucast (PACK sz 0)) s;
            s = (if NEXT_BLKP s ptr \<noteq> 0 then
                   let next = NEXT_BLKP s ptr
                   in PUT (HDRP next) (GET s (HDRP next) AND NOT 2) s
                 else s);
            s = add_free_block ptr s
        in snd (coalesce ptr s))"

text \<open>
  \<open>memcpy\<close> and \<open>memset\<close> of the C library.  A store of one or more bytes through the null
  pointer is the one crash that is tracked.
\<close>

datatype crash = NullStore

definition memcpy :: "addr \<Rightarrow> addr \<Rightarrow> 64 word \<Rightarrow> mm_state \<Rightarrow> crash + mm_state" where
  "memcpy dst src n s =
     (if n = 0 then Inr s
      else if dst = 0 then Inl NullStore
      else Inr (s\<lparr>mem := (\<lambda>a. if dst \<le> a \<and> a < dst + unat n
                                then mem s (src + (a - dst)) else mem s a)\<rparr>))"

definition memset :: "addr \<Rightarrow> 8 word \<Rightarrow> 64 word \<Rightarrow> mm_state \<Rightarrow> crash + mm_state" where
  "memset dst c n s =
     (if n = 0 then Inr s
      else if dst = 0 then Inl NullStore
      else Inr (s\<lparr>mem := (\<lambda>a. if dst \<le> a \<and> a < dst + unat n then c else mem s a)\<rparr>))"

text \<open>The number of bytes \<open>realloc\<close> copies: \<open>oldsize\<close>, after the comparison with \<open>size\<close>.\<close>

definition realloc_copy_len :: "mm_state \<Rightarrow> addr \<Rightarrow> 64 word \<Rightarrow> 64 word" where
  "realloc_copy_len s oldptr sz =
     (let oldsize = (ucast (GET_SIZE s (HDRP oldptr)) :: 64 word)
      in if sz < oldsize then sz else oldsize)"

definition realloc ::
    "addr \<Rightarrow> 64 word \<Rightarrow> mm_state \<Rightarrow> (crash + addr \<times> mm_state) option" where
  "realloc oldptr sz s =
     (if oldptr = 0 then map_option Inr (malloc sz s)
      else if sz = 0 then Some (Inr (0, free oldptr s))
      else
        case malloc sz s of
          None \<Rightarrow> None
        | Some (newptr, s) \<Rightarrow>
            if newptr = 0 then Some (Inr (0, s))
            else
              (case memcpy newptr oldptr (realloc_copy_len s oldptr sz) s of
                 Inl c \<Rightarrow> Some (Inl c)
               | Inr s \<Rightarrow> Some (Inr (newptr, free oldptr s))))"

definition calloc ::
    "64 word \<Rightarrow> 64 word \<Rightarrow> mm_state \<Rightarrow> (crash + addr \<times> mm_state) option" where
  "calloc nmemb sz s =
     (let bytes = nmemb * sz
      in case malloc bytes s of
           None \<Rightarrow> None
         | Some (newptr, s) \<Rightarrow>
             (case memset newptr 0 bytes s of
                Inl c \<Rightarrow> Some (Inl c)
              | Inr s \<Rightarrow> Some (Inr (newptr, s))))"

section \<open>The heap checker\<close>

text \<open>
  \<open>mm_checkheap\<close> prints one line per violation it finds.  The lines are modelled as values;
  the result of the checker is the list of lines in the order they are printed.  The
  walks over the blocks and over a free list do not return on a cyclic structure.
\<close>

datatype diagnostic =
    Prologue_alignment_error
  | Prologue_header_size_error
  | Prologue_header_allocate_error
  | Epilogue_size_error
  | Epilogue_allocate_error
  | Allocate_flag_error_of_next_block addr
  | Two_consecutive_free_blocks
  | Free_blocks_number_not_match
  | Not_aligned_correctly
  | Block_out_of_heap
  | Wrong_segregated_list
  | Links_not_consistent
  | Block_not_in_heap addr
  | Block_not_correctly_aligned addr
  | Wrong_size_of_block addr
  | Head_foot_size_differ

definition in_heap :: "mm_state \<Rightarrow> addr \<Rightarrow> bool" where
  "in_heap s p \<longleftrightarrow> p \<le> mem_heap_hi s \<and> p \<ge> mem_heap_lo s"

text \<open>\<open>ALIGN(p) == p\<close>, with \<open>ALIGN(p) = ((size_t)(p) + 7) & ~0x7\<close>.\<close>

definition aligned :: "addr \<Rightarrow> bool" where
  "aligned p \<longleftrightarrow> ((of_nat p :: 64 word) + 7) AND NOT 7 = of_nat p"

definition check_block :: "addr \<Rightarrow> mm_state \<Rightarrow> diagnostic list" where
  "check_block ptr s =
     (let head_size = (ucast (GET_SIZE s (HDRP ptr)) :: 64 word)
      in (if \<not> in_heap s ptr then [Block_not_in_heap ptr] else [])
         @ (if \<not> aligned ptr then [Block_not_correctly_aligned ptr] else [])
         @ (if head_size < 2 * of_nat DSIZE \<and> ptr \<noteq> heap_listp s
            then [Wrong_size_of_block ptr] else [])
         @ (if GET_ALLOC s (HDRP ptr) = 0 \<and> ucast (GET_SIZE s (FTRP s ptr)) \<noteq> head_size
            then [Head_foot_size_differ] else []))"

partial_function (option) check_list_loop ::
    "addr \<Rightarrow> int \<Rightarrow> diagnostic list \<Rightarrow> 64 word \<Rightarrow> 64 word \<Rightarrow> mm_state
      \<Rightarrow> (int \<times> diagnostic list) option" where
  "check_list_loop bp count out size_lo size_hi s =
     (if GET_NEXT s bp \<noteq> 0 then
        let count = count + 1;
            out = out @ (if \<not> aligned bp then [Not_aligned_correctly] else []);
            out = out @ (if \<not> in_heap s bp then [Block_out_of_heap] else []);
            cur_size = (ucast (GET_SIZE s (HDRP bp)) :: 64 word);
            out = out @ (if cur_size < size_lo \<or> cur_size \<ge> size_hi
                         then [Wrong_segregated_list] else []);
            next = OFFSET_REAL (GET_NEXT s bp)
        in if next = 0 then check_list_loop bp count out size_lo size_hi s
           else
             let out = out @ (if GET_PREV s next \<noteq> REAL_OFFSET (of_nat bp)
                              then [Links_not_consistent] else []);
                 bp = OFFSET_REAL (GET_NEXT s bp)
             in check_list_loop bp count out size_lo size_hi s
      else Some (count + 1, out))"

definition check_list ::
    "addr \<Rightarrow> 64 word \<Rightarrow> 64 word \<Rightarrow> mm_state \<Rightarrow> (int \<times> diagnostic list) option" where
  "check_list listp size_lo size_hi s =
     (let first_free = GET8 s listp
      in if first_free = 0 then Some (0, [])
         else check_list_loop (unat first_free) 0 [] size_lo size_hi s)"

text \<open>The messages of the checks on the prologue and on the epilogue.\<close>

definition check_prologue :: "mm_state \<Rightarrow> diagnostic list" where
  "check_prologue s =
     (if \<not> aligned (heap_listp s) then [Prologue_alignment_error] else [])
     @ (if GET_SIZE s (heap_listp s) \<noteq> of_nat DSIZE then [Prologue_header_size_error] else [])
     @ (if GET_ALLOC s (heap_listp s) \<noteq> 1 then [Prologue_header_allocate_error] else [])
     @ (if GET_SIZE s (heap_listp s - WSIZE) \<noteq> of_nat DSIZE
        then [Prologue_header_size_error] else [])
     @ (if GET_ALLOC s (heap_listp s - WSIZE) \<noteq> 1
        then [Prologue_header_allocate_error] else [])"

definition check_epilogue :: "mm_state \<Rightarrow> diagnostic list" where
  "check_epilogue s =
     (if GET_SIZE s (mem_heap_hi s - 3) \<noteq> 0 then [Epilogue_size_error] else [])
     @ (if GET_ALLOC s (mem_heap_hi s - 3) \<noteq> 1 then [Epilogue_allocate_error] else [])"

partial_function (option) check_blocks_loop ::
    "addr \<Rightarrow> int \<Rightarrow> diagnostic list \<Rightarrow> mm_state \<Rightarrow> (int \<times> diagnostic list) option" where
  "check_blocks_loop ptr count out s =
     (if GET_SIZE s (HDRP ptr) > 0 then
        let out = out @ check_block ptr s;
            count = (if GET_ALLOC s (HDRP ptr) = 0 then count + 1 else count);
            out = out @ (if GET_ALLOC s (HDRP ptr) \<noteq> GET_PREV_ALLOC s (NEXT_BLKP s ptr) div 2
                         then [Allocate_flag_error_of_next_block ptr] else []);
            next = NEXT_BLKP s ptr;
            out = out @ (if GET_ALLOC s (HDRP ptr) OR GET_ALLOC s (HDRP next) = 0
                         then [Two_consecutive_free_blocks] else [])
        in check_blocks_loop (NEXT_BLKP s ptr) count out s
      else Some (count, out))"

definition sizes :: "64 word list" where
  "sizes = [0, 16, 32, 64, 128, 256, 480, 960, 1920, 3840, 7680, 15360, 30720, 61440,
            2 ^ 30 - 1]"

fun check_lists_loop ::
    "nat list \<Rightarrow> int \<Rightarrow> diagnostic list \<Rightarrow> mm_state \<Rightarrow> (int \<times> diagnostic list) option" where
  "check_lists_loop [] free_count out s = Some (free_count, out)"
| "check_lists_loop (i # is) free_count out s =
     (case check_list (seg_list_start s + i * DSIZE) (sizes ! i) (sizes ! (i + 1)) s of
        None \<Rightarrow> None
      | Some (n, ds) \<Rightarrow> check_lists_loop is (free_count + n) (out @ ds) s)"

definition mm_checkheap :: "int \<Rightarrow> mm_state \<Rightarrow> diagnostic list option" where
  "mm_checkheap lineno s =
     (let out = check_prologue s @ check_epilogue s
      in case check_blocks_loop (heap_listp s) 0 out s of
           None \<Rightarrow> None
         | Some (count, out) \<Rightarrow>
             (case check_lists_loop [0..<SEG_NUM] 0 out s of
                None \<Rightarrow> None
              | Some (free_count, out) \<Rightarrow>
                  Some (out @ (if free_count \<noteq> count
                               then [Free_blocks_number_not_match] else []))))"

section \<open>Reference states and specification-level functions\<close>

text \<open>An empty raw heap with an arena of one MiB, before the first call of the allocator.\<close>

definition fresh_heap :: mm_state where
  "fresh_heap = \<lparr>mem = (\<lambda>_. 0), mem_brk = BASEADDR, mem_max_addr = BASEADDR + 2 ^ 20,
                  heap_listp = 0, seg_list_start = 0, uninit_size = 0\<rparr>"

text \<open>The same, with an arena that holds exactly the 592 bytes of the initial heap.\<close>

definition tight_heap :: mm_state where
  "tight_heap = fresh_heap\<lparr>mem_max_addr := BASEADDR + 592\<rparr>"


text \<open>
  The variant of \<open>extend_heap\<close> without the conditional statement that reads \<open>size\<close>
  before its first assignment.
\<close>

definition extend_heap_plain :: "64 word \<Rightarrow> mm_state \<Rightarrow> addr \<times> mm_state" where
  "extend_heap_plain words s =
     (let sz = extend_size words;
          (bp, s) = mem_sbrk sz s
      in if bp = MINUS1 then (0, s)
         else
           let s = extend_init_block bp sz s;
               s = (if sz \<ge> 2 * of_nat DSIZE then add_free_block bp s else s)
           in coalesce bp s)"

subsection \<open>The free lists as sequences of nodes, and the placement policy in words\<close>

text \<open>
  \<open>chain s bp xs\<close>: \<open>xs\<close> is the sequence of nodes met from \<open>bp\<close> along the next-links of
  the heap, up to the node whose next-link is 0.  \<open>seg_list s i xs\<close>: \<open>xs\<close> is the content of
  the list of class \<open>i\<close>, read from its directory slot.
\<close>

fun chain :: "mm_state \<Rightarrow> addr \<Rightarrow> addr list \<Rightarrow> bool" where
  "chain s bp [] \<longleftrightarrow> False"
| "chain s bp [x] \<longleftrightarrow> x = bp \<and> GET_NEXT s bp = 0"
| "chain s bp (x # y # ys) \<longleftrightarrow>
     x = bp \<and> GET_NEXT s bp \<noteq> 0 \<and> chain s (OFFSET_REAL (GET_NEXT s bp)) (y # ys)"

definition seg_list :: "mm_state \<Rightarrow> nat \<Rightarrow> addr list \<Rightarrow> bool" where
  "seg_list s i xs \<longleftrightarrow>
     (let first_free = GET8 s (seg_list_start s + i * DSIZE)
      in if first_free = 0 then xs = [] else chain s (unat first_free) xs)"

definition block_size :: "mm_state \<Rightarrow> addr \<Rightarrow> 64 word" where
  "block_size s p = ucast (GET_SIZE s (HDRP p))"

text \<open>First fit: the first node with size at least \<open>A\<close>; none is the null pointer.\<close>

definition first_fit :: "mm_state \<Rightarrow> 64 word \<Rightarrow> addr list \<Rightarrow> addr" where
  "first_fit s A xs = (case filter (\<lambda>p. A \<le> block_size s p) xs of [] \<Rightarrow> 0 | p # _ \<Rightarrow> p)"

text \<open>
  Best fit: among the nodes with size at least \<open>A\<close>, the first one whose size is the
  smallest such size.
\<close>

definition first_smallest :: "mm_state \<Rightarrow> addr list \<Rightarrow> addr" where
  "first_smallest s ys =
     hd (filter (\<lambda>p. block_size s p = Min (block_size s ` set ys)) ys)"

definition best_fit :: "mm_state \<Rightarrow> 64 word \<Rightarrow> addr list \<Rightarrow> addr" where
  "best_fit s A xs =
     (let ys = filter (\<lambda>p. A \<le> block_size s p) xs
      in if ys = [] then 0 else first_smallest s ys)"

text \<open>The search within one list: first fit below 960 bytes, best fit from 960 bytes on.\<close>

definition seg_fit :: "mm_state \<Rightarrow> 64 word \<Rightarrow> addr list \<Rightarrow> addr" where
  "seg_fit s A xs = (if A < 960 then first_fit s A xs else best_fit s A xs)"

text \<open>The size classes as the specification tabulates them: the class of a size in bytes.\<close>

definition seg_index_nat :: "nat \<Rightarrow> nat" where
  "seg_index_nat n =
     (if n < 16 then 0 else if n < 32 then 1 else if n < 64 then 2
      else if n < 128 then 3 else if n < 256 then 4 else if n < 480 then 5
      else if n < 960 then 6 else if n < 1920 then 7 else if n < 3840 then 8
      else if n < 7680 then 9 else if n < 15360 then 10 else if n < 30720 then 11
      else if n < 61440 then 12 else 13)"

text \<open>
  The search over the lists: from the class that the table gives for \<open>A\<close> through the
  larger classes up to class 13, the result of the first list that has a fit.
\<close>

definition first_nonzero :: "addr list \<Rightarrow> addr" where
  "first_nonzero rs = (case filter (\<lambda>r. r \<noteq> 0) rs of [] \<Rightarrow> 0 | r # _ \<Rightarrow> r)"

definition lists_fit :: "mm_state \<Rightarrow> 64 word \<Rightarrow> (nat \<Rightarrow> addr list) \<Rightarrow> addr" where
  "lists_fit s A L = first_nonzero (map (\<lambda>i. seg_fit s A (L i)) [seg_index_nat (unat A) ..< 14])"

text \<open>The head of the free list that a block at \<open>b\<close> belongs to by its header's size: the
  content of the directory slot that \<open>add_free_block\<close> and \<open>remove_free_block\<close> read.\<close>

definition list_head :: "mm_state \<Rightarrow> addr \<Rightarrow> 64 word" where
  "list_head s b = GET8 s (get_seg_listp s (ucast (GET_SIZE s (HDRP b))))"

text \<open>
  A heap with two populated lists.  The list of class 7 holds three nodes, of sizes 1200,
  1000 and 1000 in list order; the list of class 8 holds one node of size 2000.  All other
  lists are empty.
\<close>

definition listed_heap :: mm_state where
  "listed_heap =
     PUT8 (BASEADDR + 64) (of_nat (BASEADDR + 5128))
    (PUT8 (BASEADDR + 56) (of_nat (BASEADDR + 128))
    (PUT (BASEADDR + 5124) 2002
    (PUT (BASEADDR + 3128) 2128 (PUT (BASEADDR + 3124) 1002
    (PUT (BASEADDR + 2132) 3128 (PUT (BASEADDR + 2128) 128 (PUT (BASEADDR + 2124) 1002
    (PUT (BASEADDR + 132) 2128 (PUT (BASEADDR + 124) 1202
      (fresh_heap\<lparr>mem_brk := BASEADDR + 8192, heap_listp := BASEADDR + 120,
                    seg_list_start := BASEADDR\<rparr>))))))))))"


text \<open>
  \<open>apart s ptr C x\<close>: the block at \<open>x\<close> lies above the directory, and its two link words do
  not meet the block of size \<open>C\<close> at \<open>ptr\<close>: they end before the header of \<open>ptr\<close>, or \<open>x\<close> is at
  or after the end of that block.
\<close>

definition apart :: "mm_state \<Rightarrow> addr \<Rightarrow> nat \<Rightarrow> addr \<Rightarrow> bool" where
  "apart s ptr C x \<longleftrightarrow>
     seg_list_start s + SEG_NUM * DSIZE \<le> x \<and> (x + 8 \<le> HDRP ptr \<or> ptr + C \<le> x)"
section \<open>Reading and writing the heap\<close>

lemma word64_of_halves:
  "ucast (ucast v :: 32 word) OR push_bit 32 (ucast (ucast (drop_bit 32 v) :: 32 word)) = (v :: 64 word)"
proof (rule bit_word_eqI)
  fix n assume n: "n < LENGTH(64)"
  show "bit (ucast (ucast v :: 32 word) OR push_bit 32 (ucast (ucast (drop_bit 32 v) :: 32 word)) :: 64 word) n = bit v n"
  proof (cases "n < 32")
    case True then show ?thesis by (simp add: bit_simps)
  next
    case False
    then have "n - 32 < 32" "n - 32 < 64" using n by simp_all
    then show ?thesis using False n by (simp add: bit_simps)
  qed
qed

lemma word32_of_bytes:
  "ucast (ucast v :: 8 word) OR push_bit 8 (ucast (ucast (drop_bit 8 v) :: 8 word))
     OR push_bit 16 (ucast (ucast (drop_bit 16 v) :: 8 word))
     OR push_bit 24 (ucast (ucast (drop_bit 24 v) :: 8 word)) = (v :: 32 word)"
proof (rule bit_word_eqI)
  fix n assume n: "n < LENGTH(32)"
  consider "n < 8" | "8 \<le> n" "n < 16" | "16 \<le> n" "n < 24" | "24 \<le> n" by linarith
  then show "bit (ucast (ucast v :: 8 word) OR push_bit 8 (ucast (ucast (drop_bit 8 v) :: 8 word))
     OR push_bit 16 (ucast (ucast (drop_bit 16 v) :: 8 word))
     OR push_bit 24 (ucast (ucast (drop_bit 24 v) :: 8 word)) :: 32 word) n = bit v n"
  proof cases
    case 1 then show ?thesis by (simp add: bit_simps)
  next
    case 2
    then have "n - 8 < 8" "\<not> 16 \<le> n" "\<not> 24 \<le> n" "\<not> n < 8" by simp_all
    then show ?thesis using 2 by (simp add: bit_simps)
  next
    case 3
    then have "n - 16 < 8" "\<not> n - 8 < 8" "\<not> 24 \<le> n" "\<not> n < 8" by simp_all
    then show ?thesis using 3 by (simp add: bit_simps)
  next
    case 4
    then have "n - 24 < 8" "\<not> n - 8 < 8" "\<not> n - 16 < 8" "\<not> n < 8" using n by simp_all
    then show ?thesis using 4 n by (simp add: bit_simps)
  qed
qed

lemma load32_store32_same: "load32 (store32 m p v) p = v"
  unfolding load32_def store32_def by (simp add: word32_of_bytes)

lemma store32_frame: "a < p \<or> p + 4 \<le> a \<Longrightarrow> store32 m p v a = m a"
  unfolding store32_def by auto

lemma load32_frame:
  "(\<And>a. p \<le> a \<Longrightarrow> a < p + 4 \<Longrightarrow> m' a = m a) \<Longrightarrow> load32 m' p = load32 m p"
  unfolding load32_def by simp

lemma load32_store32_other:
  "q + 4 \<le> p \<or> p + 4 \<le> q \<Longrightarrow> load32 (store32 m p v) q = load32 m q"
  by (rule load32_frame) (auto simp: store32_frame)

lemma GET_PUT_same: "GET (PUT p v s) p = v"
  by (simp add: GET_def PUT_def load32_store32_same)

lemma GET_PUT_other: "q + 4 \<le> p \<or> p + 4 \<le> q \<Longrightarrow> GET (PUT p v s) q = GET s q"
  by (simp add: GET_def PUT_def load32_store32_other)

lemma mem_PUT_frame: "a < p \<or> p + 4 \<le> a \<Longrightarrow> mem (PUT p v s) a = mem s a"
  by (simp add: PUT_def store32_frame)

lemma GET_frame:
  "(\<And>a. p \<le> a \<Longrightarrow> a < p + 4 \<Longrightarrow> mem s' a = mem s a) \<Longrightarrow> GET s' p = GET s p"
  unfolding GET_def by (rule load32_frame)

lemma PUT_fields:
  "mem_brk (PUT p v s) = mem_brk s" "mem_max_addr (PUT p v s) = mem_max_addr s"
  "heap_listp (PUT p v s) = heap_listp s" "seg_list_start (PUT p v s) = seg_list_start s"
  "uninit_size (PUT p v s) = uninit_size s"
  by (simp_all add: PUT_def)

lemma GET_fields:
  "GET (s\<lparr>mem_brk := b\<rparr>) p = GET s p" "GET (s\<lparr>mem_max_addr := b\<rparr>) p = GET s p"
  "GET (s\<lparr>heap_listp := b\<rparr>) p = GET s p" "GET (s\<lparr>seg_list_start := b\<rparr>) p = GET s p"
  "GET (s\<lparr>uninit_size := u\<rparr>) p = GET s p"
  by (simp_all add: GET_def)

lemma GET8_GET: "GET8 s p = ucast (GET s p) OR push_bit 32 (ucast (GET s (p + 4)))"
  by (simp add: GET8_def GET_def load64_def)

lemma PUT8_PUT: "PUT8 p v s = PUT (p + 4) (ucast (drop_bit 32 v)) (PUT p (ucast v) s)"
  by (simp add: PUT8_def PUT_def store64_def)

lemma GET8_PUT8_same: "GET8 (PUT8 p v s) p = v"
  by (simp add: GET8_GET PUT8_PUT GET_PUT_same GET_PUT_other word64_of_halves)

lemma GET8_PUT8_other: "q + 8 \<le> p \<or> p + 8 \<le> q \<Longrightarrow> GET8 (PUT8 p v s) q = GET8 s q"
  by (auto simp add: GET8_GET PUT8_PUT GET_PUT_other)

lemma GET8_PUT_other: "q + 8 \<le> p \<or> p + 4 \<le> q \<Longrightarrow> GET8 (PUT p v s) q = GET8 s q"
  by (auto simp add: GET8_GET GET_PUT_other)

lemma GET_PUT8_other: "q + 4 \<le> p \<or> p + 8 \<le> q \<Longrightarrow> GET (PUT8 p v s) q = GET s q"
  by (auto simp add: PUT8_PUT GET_PUT_other)

lemma mem_PUT8_frame: "a < p \<or> p + 8 \<le> a \<Longrightarrow> mem (PUT8 p v s) a = mem s a"
  by (auto simp add: PUT8_PUT mem_PUT_frame)

lemma PUT8_fields:
  "mem_brk (PUT8 p v s) = mem_brk s" "mem_max_addr (PUT8 p v s) = mem_max_addr s"
  "heap_listp (PUT8 p v s) = heap_listp s" "seg_list_start (PUT8 p v s) = seg_list_start s"
  "uninit_size (PUT8 p v s) = uninit_size s"
  by (simp_all add: PUT8_def)

lemma GET8_fields:
  "GET8 (s\<lparr>mem_brk := b\<rparr>) p = GET8 s p" "GET8 (s\<lparr>mem_max_addr := b\<rparr>) p = GET8 s p"
  "GET8 (s\<lparr>heap_listp := b\<rparr>) p = GET8 s p" "GET8 (s\<lparr>seg_list_start := b\<rparr>) p = GET8 s p"
  "GET8 (s\<lparr>uninit_size := u\<rparr>) p = GET8 s p"
  by (simp_all add: GET8_def)

lemmas heap_simps = GET_PUT_same GET_PUT_other PUT_fields GET_fields GET8_PUT8_same
  GET8_PUT8_other GET8_PUT_other GET_PUT8_other PUT8_fields GET8_fields

section \<open>Size and flag bits of a header word\<close>

lemma bit_int_7_iff: "bit (7 :: int) n \<longleftrightarrow> n < 3"
proof -
  have e: "(7 :: int) = mask 3" by (simp add: mask_eq_exp_minus_1)
  show ?thesis unfolding e by (simp only: bit_mask_iff) simp
qed

lemma bit_int_3_iff: "bit (3 :: int) n \<longleftrightarrow> n < 2"
proof -
  have e: "(3 :: int) = mask 2" by (simp add: mask_eq_exp_minus_1)
  show ?thesis unfolding e by (simp only: bit_mask_iff) simp
qed

lemma bit_int_2_iff: "bit (2 :: int) n \<longleftrightarrow> n = 1"
proof -
  have e: "(2 :: int) = push_bit 1 1" by simp
  show ?thesis unfolding e by (simp only: bit_push_bit_iff bit_1_iff) auto
qed

lemma bit_int_m8_iff: "bit (- 8 :: int) n \<longleftrightarrow> 3 \<le> n"
proof -
  have e: "(- 8 :: int) = NOT 7" by simp
  show ?thesis unfolding e by (simp only: bit_not_iff bit_int_7_iff) auto
qed

lemma bit_int_m3_iff: "bit (- 3 :: int) n \<longleftrightarrow> n \<noteq> 1"
proof -
  have e: "(- 3 :: int) = NOT 2" by simp
  show ?thesis unfolding e by (simp only: bit_not_iff bit_int_2_iff) auto
qed

lemmas flag_bits = bit_and_iff bit_or_iff bit_not_iff bit_int_7_iff bit_int_3_iff bit_int_2_iff
  bit_1_iff bit_int_m8_iff bit_int_m3_iff

text \<open>A size is a multiple of 8 when its three low bits are clear.\<close>

lemma low_bits_clear: "(w :: 'a::len word) AND 7 = 0 \<longleftrightarrow> (\<forall>n<3. \<not> bit w n)"
proof
  assume a: "w AND 7 = 0"
  show "\<forall>n<3. \<not> bit w n"
  proof (intro allI impI notI)
    fix n assume n: "n < 3" "bit w n"
    then have "n < LENGTH('a)" by (simp add: bit_imp_le_length)
    with n have "bit (w AND 7) n" by (simp add: flag_bits)
    with a show False by simp
  qed
next
  assume "\<forall>n<3. \<not> bit w n"
  then show "w AND 7 = 0"
    by (intro bit_word_eqI) (auto simp add: flag_bits)
qed

lemma size_of_pack:
  fixes w a :: "'a::len word"
  assumes "w AND 7 = 0" "a AND NOT 7 = 0"
  shows "(w OR a) AND NOT 7 = w"
proof (rule bit_word_eqI)
  fix n assume n: "n < LENGTH('a)"
  have a: "\<not> (bit a n \<and> 3 \<le> n)"
  proof
    assume "bit a n \<and> 3 \<le> n"
    with n have "bit (a AND NOT 7) n" by (simp add: flag_bits)
    with assms(2) show False by simp
  qed
  have w: "bit w n \<Longrightarrow> 3 \<le> n"
    using assms(1) by (auto simp add: low_bits_clear not_less[symmetric])
  show "bit ((w OR a) AND NOT 7) n = bit w n"
    using a w n by (auto simp add: flag_bits)
qed

lemma flags_of_pack:
  fixes w a :: "'a::len word"
  assumes "w AND 7 = 0"
  shows "(w OR a) AND 1 = a AND 1" "(w OR a) AND 2 = a AND 2"
proof -
  have w: "\<not> bit w 0" "\<not> bit w 1"
    using assms(1) by (simp_all add: low_bits_clear)
  show "(w OR a) AND 1 = a AND 1"
    by (rule bit_word_eqI) (use w in \<open>auto simp add: flag_bits\<close>)
  show "(w OR a) AND 2 = a AND 2"
    by (rule bit_word_eqI) (use w in \<open>auto simp add: flag_bits\<close>)
qed

lemma GET_SIZE_aligned: "GET_SIZE s p AND 7 = 0"
  unfolding GET_SIZE_def
  by (rule bit_word_eqI) (auto simp add: flag_bits)

lemma ucast_aligned:
  fixes w :: "'a::len word"
  assumes "w AND 7 = 0"
  shows "(ucast w :: 'b::len word) AND 7 = 0"
  using assms by (auto simp add: low_bits_clear bit_ucast_iff)

lemma flag_small:
  "((x :: 'a::len word) AND 2) AND NOT 7 = 0" "(x AND 2 OR 1) AND NOT 7 = 0"
  "(1 :: 'a word) AND NOT 7 = 0" "(2 :: 'a word) AND NOT 7 = 0" "(0 :: 'a word) AND NOT 7 = 0"
  "(3 :: 'a word) AND NOT 7 = 0"
  by (rule bit_word_eqI; auto simp add: flag_bits)+

section \<open>Initialisation of a fresh heap\<close>

lemmas macro_defs = GET_PREV_def SET_PREV_def GET_NEXT_def SET_NEXT_def OFFSET_REAL_def REAL_OFFSET_def
  GET_SIZE_def GET_ALLOC_def HDRP_def FTRP_def NEXT_BLKP_def PREV_BLKP_def GET_PREV_ALLOC_def PACK_def
  WSIZE_def DSIZE_def CHUNKSIZE_def MINUS1_def mem_heap_hi_def mem_heap_lo_def

lemma SEG_NUM_unfold: "SEG_NUM = Suc (Suc (Suc (Suc (Suc (Suc (Suc (Suc (Suc (Suc (Suc (Suc (Suc (Suc 0)))))))))))))"
  by (simp add: SEG_NUM_def)


lemma extend_size_116: "extend_size 116 = 464"
  by (simp add: extend_size_def WSIZE_def DSIZE_def)

lemma PUT_update_commute:
  "PUT p v (s\<lparr>mem_brk := b\<rparr>) = (PUT p v s)\<lparr>mem_brk := b\<rparr>"
  "PUT p v (s\<lparr>mem_max_addr := b\<rparr>) = (PUT p v s)\<lparr>mem_max_addr := b\<rparr>"
  "PUT p v (s\<lparr>heap_listp := b\<rparr>) = (PUT p v s)\<lparr>heap_listp := b\<rparr>"
  "PUT p v (s\<lparr>seg_list_start := b\<rparr>) = (PUT p v s)\<lparr>seg_list_start := b\<rparr>"
  "PUT p v (s\<lparr>uninit_size := u\<rparr>) = (PUT p v s)\<lparr>uninit_size := u\<rparr>"
  by (simp_all add: PUT_def)



lemmas eval_simps = Let_def macro_defs heap_simps PUT_update_commute

lemma low_word_128: "(34359738496 :: 32 word) = 128"
  by simp

lemma mm_init_state:
  assumes "mem_brk s = BASEADDR" "BASEADDR + 592 \<le> mem_max_addr s"
  shows "mm_init s = (0, ((PUT (BASEADDR + 132) 0
      (PUT (BASEADDR + 128) 0
      (PUT (BASEADDR + 44) 8
      (PUT (BASEADDR + 40) 128
      (PUT (BASEADDR + 588) 1
      (PUT (BASEADDR + 584) 464
      (PUT (BASEADDR + 124) 466
      (PUT (BASEADDR + 124) 3
      (PUT (BASEADDR + 120) 9
      (PUT (BASEADDR + 116) 9
      (PUT (BASEADDR + 112) 0
      (PUT (BASEADDR + 108) 0
      (PUT (BASEADDR + 104) 0
      (PUT (BASEADDR + 100) 0
      (PUT (BASEADDR + 96) 0
      (PUT (BASEADDR + 92) 0
      (PUT (BASEADDR + 88) 0
      (PUT (BASEADDR + 84) 0
      (PUT (BASEADDR + 80) 0
      (PUT (BASEADDR + 76) 0
      (PUT (BASEADDR + 72) 0
      (PUT (BASEADDR + 68) 0
      (PUT (BASEADDR + 64) 0
      (PUT (BASEADDR + 60) 0
      (PUT (BASEADDR + 56) 0
      (PUT (BASEADDR + 52) 0
      (PUT (BASEADDR + 48) 0
      (PUT (BASEADDR + 44) 0
      (PUT (BASEADDR + 40) 0
      (PUT (BASEADDR + 36) 0
      (PUT (BASEADDR + 32) 0
      (PUT (BASEADDR + 28) 0
      (PUT (BASEADDR + 24) 0
      (PUT (BASEADDR + 20) 0
      (PUT (BASEADDR + 16) 0
      (PUT (BASEADDR + 12) 0
      (PUT (BASEADDR + 8) 0
      (PUT (BASEADDR + 4) 0
      (PUT (BASEADDR + 0) 0
      s)))))))))))))))))))))))))))))))))))))))\<lparr>seg_list_start := BASEADDR, heap_listp := BASEADDR + 120, mem_brk := BASEADDR + 592\<rparr>))"
  using assms
  apply (simp add: mm_init_def SEG_NUM_unfold mem_sbrk_def BASEADDR_def eval_simps
      split del: if_split cong: let_weak_cong prod.case_cong_weak)
  apply (simp add: extend_size_116 extend_heap_def extend_init_block_def mem_sbrk_def eval_simps
      split del: if_split cong: let_weak_cong prod.case_cong_weak)
  apply (simp add: add_free_block_def get_seg_listp_def seg_index_def GET8_GET PUT8_PUT eval_simps
      split del: if_split cong: let_weak_cong prod.case_cong_weak)
  apply (simp add: coalesce_def eval_simps low_word_128
      split del: if_split cong: let_weak_cong prod.case_cong_weak)
  done

lemma mm_init_facts:
  assumes "mem_brk s = BASEADDR" "BASEADDR + 592 \<le> mem_max_addr s"
  shows "fst (mm_init s) = 0"
    and "seg_list_start (snd (mm_init s)) = BASEADDR"
    and "heap_listp (snd (mm_init s)) = BASEADDR + 120"
    and "mem_brk (snd (mm_init s)) = BASEADDR + 592"
    and "mem_max_addr (snd (mm_init s)) = mem_max_addr s"
    and "GET (snd (mm_init s)) (BASEADDR + 116) = 9"
    and "GET (snd (mm_init s)) (BASEADDR + 120) = 9"
    and "GET (snd (mm_init s)) (BASEADDR + 124) = 466"
    and "GET (snd (mm_init s)) (BASEADDR + 128) = 0"
    and "GET (snd (mm_init s)) (BASEADDR + 132) = 0"
    and "GET (snd (mm_init s)) (BASEADDR + 584) = 464"
    and "GET (snd (mm_init s)) (BASEADDR + 588) = 1"
    and "GET8 (snd (mm_init s)) (BASEADDR + 0) = 0"
    and "GET8 (snd (mm_init s)) (BASEADDR + 8) = 0"
    and "GET8 (snd (mm_init s)) (BASEADDR + 16) = 0"
    and "GET8 (snd (mm_init s)) (BASEADDR + 24) = 0"
    and "GET8 (snd (mm_init s)) (BASEADDR + 32) = 0"
    and "GET8 (snd (mm_init s)) (BASEADDR + 40) = of_nat (BASEADDR + 128)"
    and "GET8 (snd (mm_init s)) (BASEADDR + 48) = 0"
    and "GET8 (snd (mm_init s)) (BASEADDR + 56) = 0"
    and "GET8 (snd (mm_init s)) (BASEADDR + 64) = 0"
    and "GET8 (snd (mm_init s)) (BASEADDR + 72) = 0"
    and "GET8 (snd (mm_init s)) (BASEADDR + 80) = 0"
    and "GET8 (snd (mm_init s)) (BASEADDR + 88) = 0"
    and "GET8 (snd (mm_init s)) (BASEADDR + 96) = 0"
    and "GET8 (snd (mm_init s)) (BASEADDR + 104) = 0"
  unfolding mm_init_state[OF assms]
  by (simp_all add: heap_simps GET8_GET BASEADDR_def)
section \<open>Fields other than the memory\<close>

lemma SET_fields:
  "mem_brk (SET_PREV p v s) = mem_brk s" "mem_max_addr (SET_PREV p v s) = mem_max_addr s"
  "heap_listp (SET_PREV p v s) = heap_listp s" "seg_list_start (SET_PREV p v s) = seg_list_start s"
  "uninit_size (SET_PREV p v s) = uninit_size s"
  "mem_brk (SET_NEXT p v s) = mem_brk s" "mem_max_addr (SET_NEXT p v s) = mem_max_addr s"
  "heap_listp (SET_NEXT p v s) = heap_listp s" "seg_list_start (SET_NEXT p v s) = seg_list_start s"
  "uninit_size (SET_NEXT p v s) = uninit_size s"
  by (simp_all add: SET_PREV_def SET_NEXT_def PUT_fields)

lemma add_free_block_fields:
  "mem_brk (add_free_block p s) = mem_brk s" "mem_max_addr (add_free_block p s) = mem_max_addr s"
  "heap_listp (add_free_block p s) = heap_listp s"
  "seg_list_start (add_free_block p s) = seg_list_start s"
  "uninit_size (add_free_block p s) = uninit_size s"
  by (simp_all add: add_free_block_def Let_def SET_fields PUT8_fields)

lemma remove_free_block_fields:
  "mem_brk (remove_free_block p s) = mem_brk s"
  "mem_max_addr (remove_free_block p s) = mem_max_addr s"
  "heap_listp (remove_free_block p s) = heap_listp s"
  "seg_list_start (remove_free_block p s) = seg_list_start s"
  "uninit_size (remove_free_block p s) = uninit_size s"
  by (simp_all add: remove_free_block_def Let_def SET_fields PUT8_fields)

lemmas field_simps = PUT_fields PUT8_fields SET_fields add_free_block_fields
  remove_free_block_fields



lemma place_fields:
  "mem_brk (place p a s) = mem_brk s"
  "mem_max_addr (place p a s) = mem_max_addr s"
  "heap_listp (place p a s) = heap_listp s"
  "seg_list_start (place p a s) = seg_list_start s"
  "uninit_size (place p a s) = uninit_size s"
  by (simp_all add: place_def Let_def field_simps)


section \<open>The uninitialised variable of extend_heap\<close>

lemma uninit_GET:
  "GET_SIZE (s\<lparr>uninit_size := u\<rparr>) p = GET_SIZE s p"
  "GET_ALLOC (s\<lparr>uninit_size := u\<rparr>) p = GET_ALLOC s p"
  "GET_PREV_ALLOC (s\<lparr>uninit_size := u\<rparr>) p = GET_PREV_ALLOC s p"
  "GET_PREV (s\<lparr>uninit_size := u\<rparr>) p = GET_PREV s p"
  "GET_NEXT (s\<lparr>uninit_size := u\<rparr>) p = GET_NEXT s p"
  "FTRP (s\<lparr>uninit_size := u\<rparr>) p = FTRP s p"
  "NEXT_BLKP (s\<lparr>uninit_size := u\<rparr>) p = NEXT_BLKP s p"
  "PREV_BLKP (s\<lparr>uninit_size := u\<rparr>) p = PREV_BLKP s p"
  "get_seg_listp (s\<lparr>uninit_size := u\<rparr>) z = get_seg_listp s z"
  by (simp_all add: GET_SIZE_def GET_ALLOC_def GET_PREV_ALLOC_def GET_PREV_def GET_NEXT_def
      FTRP_def NEXT_BLKP_def PREV_BLKP_def get_seg_listp_def GET_fields)

lemma uninit_SET:
  "SET_PREV p v (s\<lparr>uninit_size := u\<rparr>) = (SET_PREV p v s)\<lparr>uninit_size := u\<rparr>"
  "SET_NEXT p v (s\<lparr>uninit_size := u\<rparr>) = (SET_NEXT p v s)\<lparr>uninit_size := u\<rparr>"
  "PUT8 p w (s\<lparr>uninit_size := u\<rparr>) = (PUT8 p w s)\<lparr>uninit_size := u\<rparr>"
  by (simp_all add: SET_PREV_def SET_NEXT_def PUT_update_commute PUT8_def)

lemma uninit_add_free_block:
  "add_free_block p (s\<lparr>uninit_size := u\<rparr>) = (add_free_block p s)\<lparr>uninit_size := u\<rparr>"
  by (simp add: add_free_block_def Let_def uninit_GET uninit_SET GET8_fields)

lemma uninit_remove_free_block:
  "remove_free_block p (s\<lparr>uninit_size := u\<rparr>) = (remove_free_block p s)\<lparr>uninit_size := u\<rparr>"
  by (simp add: remove_free_block_def Let_def uninit_GET uninit_SET GET8_fields)

lemma uninit_coalesce:
  "coalesce p (s\<lparr>uninit_size := u\<rparr>) =
     (fst (coalesce p s), (snd (coalesce p s))\<lparr>uninit_size := u\<rparr>)"
  by (simp add: coalesce_def Let_def uninit_GET uninit_SET uninit_add_free_block
      uninit_remove_free_block PUT_update_commute)

lemma uninit_extend_init_block:
  "extend_init_block p z (s\<lparr>uninit_size := u\<rparr>) = (extend_init_block p z s)\<lparr>uninit_size := u\<rparr>"
  by (simp add: extend_init_block_def Let_def uninit_GET PUT_update_commute)

lemma uninit_mem_sbrk:
  "mem_sbrk z (s\<lparr>uninit_size := u\<rparr>) =
     (fst (mem_sbrk z s), (snd (mem_sbrk z s))\<lparr>uninit_size := u\<rparr>)"
  by (simp add: mem_sbrk_def)

lemma extend_heap_plain_uninit:
  "extend_heap_plain words (s\<lparr>uninit_size := u\<rparr>) =
     (fst (extend_heap_plain words s), (snd (extend_heap_plain words s))\<lparr>uninit_size := u\<rparr>)"
  by (simp add: extend_heap_plain_def Let_def split_def uninit_mem_sbrk uninit_extend_init_block
      uninit_add_free_block uninit_coalesce)

text \<open>
  C9.  The conditional statement of \<open>extend_heap\<close> that uses \<open>size\<close> before its first
  assignment has no effect: \<open>extend_heap\<close> equals the variant without it, and the result
  depends on \<open>words\<close> and the prior heap only: another indeterminate value \<open>u\<close> of the
  variable changes neither the pointer returned nor the heap.
\<close>

theorem extend_heap_conditional_dead:
  "extend_heap words s = extend_heap_plain words s
   \<and> extend_heap words (s\<lparr>uninit_size := u\<rparr>) =
       (fst (extend_heap words s), (snd (extend_heap words s))\<lparr>uninit_size := u\<rparr>)"
proof -
  have eq: "extend_heap words t = extend_heap_plain words t" for t
    by (simp add: extend_heap_def extend_heap_plain_def Let_def)
  show ?thesis
    by (simp only: eq extend_heap_plain_uninit simp_thms)
qed

section \<open>The prologue after initialisation, and the checker\<close>

lemma mm_init_slots_room:
  "mm_init_slots n s = (ok, s') \<Longrightarrow>
     mem_max_addr s' = mem_max_addr s \<and>
     (ok \<longrightarrow> mem_brk s' = mem_brk s + 8 * n)"
proof (induction n arbitrary: s)
  case 0
  then show ?case by simp
next
  case (Suc n)
  show ?case
  proof (cases "mem_brk s + 8 > mem_max_addr s")
    case True
    with Suc.prems show ?thesis
      by (simp add: mem_sbrk_def WSIZE_def)
  next
    case False
    let ?t = "PUT (mem_brk s + 1 * WSIZE) 0 (PUT (mem_brk s) 0 (s\<lparr>mem_brk := mem_brk s + 8\<rparr>))"
    have "mem_brk s \<noteq> MINUS1 \<Longrightarrow> mm_init_slots n ?t = (ok, s')"
      using Suc.prems False by (simp add: mem_sbrk_def WSIZE_def)
    moreover have "mem_brk s = MINUS1 \<Longrightarrow> \<not> ok \<and> mem_max_addr s' = mem_max_addr s"
      using Suc.prems False by (auto simp add: mem_sbrk_def WSIZE_def)
    ultimately show ?thesis
      using Suc.IH[of ?t] by (cases "mem_brk s = MINUS1") (auto simp add: PUT_fields)
  qed
qed

lemma extend_heap_no_room:
  "mem_max_addr s < mem_brk s + unat (extend_size w) \<Longrightarrow> extend_heap w s = (0, s)"
  by (simp add: extend_heap_def mem_sbrk_def Let_def)

lemma mm_init_room:
  assumes "fst (mm_init s) = 0" "mem_brk s = BASEADDR"
  shows "BASEADDR + 592 \<le> mem_max_addr s"
proof (rule ccontr)
  assume no: "\<not> BASEADDR + 592 \<le> mem_max_addr s"
  obtain ok sA where sl: "mm_init_slots SEG_NUM (s\<lparr>seg_list_start := BASEADDR\<rparr>) = (ok, sA)"
    by (cases "mm_init_slots SEG_NUM (s\<lparr>seg_list_start := BASEADDR\<rparr>)") 
  from mm_init_slots_room[OF sl] assms(2)
  have mx: "mem_max_addr sA = mem_max_addr s"
    and br: "ok \<Longrightarrow> mem_brk sA = BASEADDR + 112"
    by (simp_all add: SEG_NUM_def)
  show False
  proof (cases ok)
    case False
    with sl assms(1) show False by (simp add: mm_init_def Let_def)
  next
    case True
    show False
    proof (cases "mem_max_addr s < BASEADDR + 128")
      case True
      with \<open>ok\<close> sl assms(1) mx br show False
        by (simp add: mm_init_def Let_def mem_sbrk_def WSIZE_def)
    next
      case False
      let ?t = "(PUT (BASEADDR + 112 + 3 * WSIZE) (ucast (PACK 0 3))
                 (PUT (BASEADDR + 112 + 2 * WSIZE) (ucast (PACK (of_nat DSIZE) 1))
                   (PUT (BASEADDR + 112 + 1 * WSIZE) (ucast (PACK (of_nat DSIZE) 1))
                     (PUT (BASEADDR + 112) 0
                       (sA\<lparr>mem_brk := BASEADDR + 128, heap_listp := BASEADDR + 112\<rparr>)))))
                \<lparr>heap_listp := BASEADDR + 112 + 2 * WSIZE\<rparr>"
      have "extend_heap 116 ?t = (0, ?t)"
        using no mx by (intro extend_heap_no_room) (simp add: extend_size_116 PUT_fields)
      with \<open>ok\<close> False sl assms(1) mx br show False
        by (simp add: mm_init_def Let_def mem_sbrk_def CHUNKSIZE_def PUT_fields WSIZE_def
            BASEADDR_def MINUS1_def)
    qed
  qed
qed


lemma checkheap_initial:
  assumes "seg_list_start s = BASEADDR" "heap_listp s = BASEADDR + 120"
    and "mem_brk s = BASEADDR + 592"
    and "GET s (BASEADDR + 116) = 9" "GET s (BASEADDR + 120) = 9"
    and "GET s (BASEADDR + 124) = 466" "GET s (BASEADDR + 132) = 0"
    and "GET s (BASEADDR + 584) = 464" "GET s (BASEADDR + 588) = 1"
    and "GET8 s (BASEADDR + 0) = 0" "GET8 s (BASEADDR + 8) = 0" "GET8 s (BASEADDR + 16) = 0"
    and "GET8 s (BASEADDR + 24) = 0" "GET8 s (BASEADDR + 32) = 0"
    and "GET8 s (BASEADDR + 40) = of_nat (BASEADDR + 128)"
    and "GET8 s (BASEADDR + 48) = 0" "GET8 s (BASEADDR + 56) = 0" "GET8 s (BASEADDR + 64) = 0"
    and "GET8 s (BASEADDR + 72) = 0" "GET8 s (BASEADDR + 80) = 0" "GET8 s (BASEADDR + 88) = 0"
    and "GET8 s (BASEADDR + 96) = 0" "GET8 s (BASEADDR + 104) = 0"
  shows "check_prologue s = []" and "check_epilogue s = []"
    and "mm_checkheap lineno s = Some []"
proof -
  show p: "check_prologue s = []"
    using assms by (simp add: check_prologue_def aligned_def BASEADDR_def macro_defs)
  show e: "check_epilogue s = []"
    using assms by (simp add: check_epilogue_def BASEADDR_def macro_defs)
  have b: "check_blocks_loop (heap_listp s) 0 [] s = Some (1, [])"
    using assms
    apply (subst check_blocks_loop.simps)
    apply (simp add: check_block_def in_heap_def aligned_def BASEADDR_def eval_simps
        split del: if_split cong: let_weak_cong)
    apply (subst check_blocks_loop.simps)
    apply (simp add: check_block_def in_heap_def aligned_def BASEADDR_def eval_simps
        split del: if_split cong: let_weak_cong)
    apply (subst check_blocks_loop.simps)
    apply (simp add: check_block_def in_heap_def aligned_def BASEADDR_def eval_simps
        split del: if_split cong: let_weak_cong)
    done
  have u: "[0..<SEG_NUM] = [0, 1, 2, 3, 4, 5, 6, 7, 8, 9, 10, 11, 12, 13]"
    by (simp add: SEG_NUM_unfold)
  have l: "check_lists_loop [0..<SEG_NUM] 0 [] s = Some (1, [])"
    unfolding u using assms
    apply (simp add: sizes_def check_list_def BASEADDR_def
        eval_simps split del: if_split cong: let_weak_cong)
    apply (subst check_list_loop.simps)
    apply (simp add: sizes_def check_list_def BASEADDR_def eval_simps
        split del: if_split cong: let_weak_cong)
    done
  show "mm_checkheap lineno s = Some []"
    by (simp add: mm_checkheap_def p e b l)
qed


lemma fresh_heap_room: "mem_brk fresh_heap = BASEADDR" "BASEADDR + 592 \<le> mem_max_addr fresh_heap"
  by (simp_all add: fresh_heap_def)

text \<open>
  C6, as the code has it.  After a successful initialisation of a fresh raw heap the header
  and the footer of the prologue both hold size 8 (\<open>DSIZE\<close>) with the allocated bit set;
  the only other block is the initial free block of 464 bytes, which is at least 16 bytes
  long and is followed by the epilogue (size 0, allocated).  The checker reports a prologue
  size error exactly when the word at \<open>heap_listp\<close> or the word before it does not hold
  size 8, it exempts the block at \<open>heap_listp\<close> from the minimum size of 16, and it
  reports nothing on the initialised heap.
\<close>

theorem init_prologue:
  assumes "mem_brk s = BASEADDR" and "fst (mm_init s) = 0"
  shows "GET_SIZE (snd (mm_init s)) (HDRP (heap_listp (snd (mm_init s)))) = 8
       \<and> GET_ALLOC (snd (mm_init s)) (HDRP (heap_listp (snd (mm_init s)))) = 1
       \<and> FTRP (snd (mm_init s)) (heap_listp (snd (mm_init s))) = heap_listp (snd (mm_init s))
       \<and> GET_SIZE (snd (mm_init s)) (heap_listp (snd (mm_init s))) = 8
       \<and> GET_ALLOC (snd (mm_init s)) (heap_listp (snd (mm_init s))) = 1
       \<and> NEXT_BLKP (snd (mm_init s)) (heap_listp (snd (mm_init s))) = BASEADDR + 128
       \<and> GET_SIZE (snd (mm_init s)) (HDRP (BASEADDR + 128)) = 464
       \<and> GET_ALLOC (snd (mm_init s)) (HDRP (BASEADDR + 128)) = 0
       \<and> NEXT_BLKP (snd (mm_init s)) (BASEADDR + 128) = mem_brk (snd (mm_init s))
       \<and> GET_SIZE (snd (mm_init s)) (HDRP (mem_brk (snd (mm_init s)))) = 0
       \<and> GET_ALLOC (snd (mm_init s)) (HDRP (mem_brk (snd (mm_init s)))) = 1
       \<and> (\<forall>t. Prologue_header_size_error \<in> set (check_prologue t) \<longleftrightarrow>
              GET_SIZE t (heap_listp t) \<noteq> 8 \<or> GET_SIZE t (heap_listp t - WSIZE) \<noteq> 8)
       \<and> (\<forall>t. Wrong_size_of_block (heap_listp t) \<notin> set (check_block (heap_listp t) t))
       \<and> mm_checkheap lineno (snd (mm_init s)) = Some []"
proof -
  have room: "BASEADDR + 592 \<le> mem_max_addr s"
    using assms by (intro mm_init_room)
  note f = mm_init_facts[OF assms(1) room]
  have blocks: "GET_SIZE (snd (mm_init s)) (HDRP (heap_listp (snd (mm_init s)))) = 8
       \<and> GET_ALLOC (snd (mm_init s)) (HDRP (heap_listp (snd (mm_init s)))) = 1
       \<and> FTRP (snd (mm_init s)) (heap_listp (snd (mm_init s))) = heap_listp (snd (mm_init s))
       \<and> GET_SIZE (snd (mm_init s)) (heap_listp (snd (mm_init s))) = 8
       \<and> GET_ALLOC (snd (mm_init s)) (heap_listp (snd (mm_init s))) = 1
       \<and> NEXT_BLKP (snd (mm_init s)) (heap_listp (snd (mm_init s))) = BASEADDR + 128
       \<and> GET_SIZE (snd (mm_init s)) (HDRP (BASEADDR + 128)) = 464
       \<and> GET_ALLOC (snd (mm_init s)) (HDRP (BASEADDR + 128)) = 0
       \<and> NEXT_BLKP (snd (mm_init s)) (BASEADDR + 128) = mem_brk (snd (mm_init s))
       \<and> GET_SIZE (snd (mm_init s)) (HDRP (mem_brk (snd (mm_init s)))) = 0
       \<and> GET_ALLOC (snd (mm_init s)) (HDRP (mem_brk (snd (mm_init s)))) = 1"
    using f(2-12) by (simp add: BASEADDR_def macro_defs)
  have chk: "\<forall>t. Prologue_header_size_error \<in> set (check_prologue t) \<longleftrightarrow>
              GET_SIZE t (heap_listp t) \<noteq> 8 \<or> GET_SIZE t (heap_listp t - WSIZE) \<noteq> 8"
    by (simp add: check_prologue_def DSIZE_def)
  have ex: "\<forall>t. Wrong_size_of_block (heap_listp t) \<notin> set (check_block (heap_listp t) t)"
    by (simp add: check_block_def Let_def)
  have all: "mm_checkheap lineno (snd (mm_init s)) = Some []"
    using f by (intro checkheap_initial) simp_all
  from blocks chk ex all show ?thesis by blast
qed

theorem init_prologue_witness:
  "mem_brk fresh_heap = BASEADDR \<and> fst (mm_init fresh_heap) = 0
   \<and> GET_SIZE (snd (mm_init fresh_heap)) (HDRP (heap_listp (snd (mm_init fresh_heap)))) = 8
   \<and> mm_checkheap 0 (snd (mm_init fresh_heap)) = Some []"
  using init_prologue[of fresh_heap 0] mm_init_facts(1)[OF fresh_heap_room] fresh_heap_room(1)
  by simp

text \<open>
  C6 as stated fails: on the initialised fresh heap the prologue header holds size 8, not 16.
\<close>

theorem init_prologue_size_counterexample:
  "fst (mm_init fresh_heap) = 0
   \<and> GET_SIZE (snd (mm_init fresh_heap)) (HDRP (heap_listp (snd (mm_init fresh_heap)))) \<noteq> 16"
  using mm_init_facts(1,3,6)[OF fresh_heap_room]
  by (simp add: BASEADDR_def macro_defs)

section \<open>malloc of zero bytes\<close>

text \<open>
  C2, as the code has it.  On an initialised heap (\<open>heap_listp\<close> is not null) \<open>malloc(0)\<close>
  returns the null pointer and leaves the whole state unchanged.  Before the first call
  (\<open>heap_listp\<close> is null) it first runs \<open>mm_init\<close> and then returns the null pointer, so
  the state is the one \<open>mm_init\<close> leaves.
\<close>

theorem malloc_zero:
  "(heap_listp s \<noteq> 0 \<longrightarrow> malloc 0 s = Some (0, s))
   \<and> (heap_listp s = 0 \<longrightarrow> malloc 0 s = Some (0, snd (mm_init s)))"
  by (simp add: malloc_def)

theorem malloc_zero_witness:
  "heap_listp (snd (mm_init fresh_heap)) \<noteq> 0
   \<and> malloc 0 (snd (mm_init fresh_heap)) = Some (0, snd (mm_init fresh_heap))
   \<and> heap_listp fresh_heap = 0
   \<and> malloc 0 fresh_heap = Some (0, snd (mm_init fresh_heap))"
  using malloc_zero[of "snd (mm_init fresh_heap)"] malloc_zero[of fresh_heap]
    mm_init_facts(3)[OF fresh_heap_room]
  by (simp add: fresh_heap_def BASEADDR_def)

text \<open>
  C2 as stated fails before the first call: \<open>malloc(0)\<close> on the uninitialised heap grows the
  heap by 592 bytes.
\<close>

theorem malloc_zero_uninitialised_counterexample:
  "malloc 0 fresh_heap \<noteq> Some (0, fresh_heap)
   \<and> mem_brk (snd (the (malloc 0 fresh_heap))) = mem_brk fresh_heap + 592"
proof -
  have m: "malloc 0 fresh_heap = Some (0, snd (mm_init fresh_heap))"
    by (simp add: malloc_def fresh_heap_def)
  have b: "mem_brk (snd (mm_init fresh_heap)) = mem_brk fresh_heap + 592"
    using mm_init_facts(4)[OF fresh_heap_room] by (simp add: fresh_heap_def)
  have "snd (mm_init fresh_heap) \<noteq> fresh_heap"
    using b by auto
  with m b show ?thesis by simp
qed

section \<open>The size computed by extend_heap; header words\<close>

lemma aligned_of_unat: 
  fixes w :: "'a::len word"
  assumes "unat w mod 8 = 0" shows "w AND 7 = 0"
proof -
  have e: "(7 :: 'a word) = mask 3" by (simp add: mask_eq_exp_minus_1)
  have "unat (take_bit 3 w) = take_bit 3 (unat w)"
    by (rule unsigned_take_bit_eq)
  also have "\<dots> = unat w mod 2 ^ 3"
    by (rule take_bit_eq_mod)
  finally have "unat (take_bit 3 w) = 0"
    using assms by simp
  then have "take_bit 3 w = 0" by (simp add: unat_eq_0)
  then show ?thesis unfolding e by (simp only: take_bit_eq_mask)
qed



lemma size_of_pack_m8:
  fixes w a :: "'a::len word"
  assumes "w AND 7 = 0" "a AND - 8 = 0"
  shows "(w OR a) AND - 8 = w"
  using size_of_pack[of w a] assms by simp

lemma flag_small_m8:
  "((x :: 'a::len word) AND 2) AND - 8 = 0" "(x AND 2 OR 1) AND - 8 = 0"
  "(1 :: 'a word) AND - 8 = 0" "(2 :: 'a word) AND - 8 = 0" "(3 :: 'a word) AND - 8 = 0"
  by (rule bit_word_eqI; auto simp add: flag_bits)+

lemma ucast_PACK:
  fixes sz :: "64 word" and a :: "32 word"
  shows "(ucast (PACK sz (ucast a)) :: 32 word) = ucast sz OR a"
  unfolding PACK_def
  by (rule bit_word_eqI) (auto simp add: bit_or_iff bit_ucast_iff dest: bit_imp_le_length)

lemma ucast_PACK_numeral:
  fixes sz :: "64 word"
  shows "(ucast (PACK sz 0) :: 32 word) = ucast sz"
    and "(ucast (PACK sz 1) :: 32 word) = ucast sz OR 1"
    and "(ucast (PACK sz 2) :: 32 word) = ucast sz OR 2"
    and "(ucast (PACK 0 1) :: 32 word) = 1"
    and "(ucast (PACK 0 3) :: 32 word) = 3"
  using ucast_PACK[of sz 0] ucast_PACK[of sz 1] ucast_PACK[of sz 2]
  by (simp_all add: PACK_def)

lemma unat_ucast_size:
  fixes sz :: "64 word"
  assumes "unat sz < 2 ^ 32"
  shows "unat (ucast sz :: 32 word) = unat sz"
  using assms by (simp add: unsigned_ucast_eq take_bit_nat_eq_self)



lemma extend_size_ge8: "8 \<le> unat (extend_size words)"
  by (simp add: extend_size_def Let_def DSIZE_def word_less_nat_alt)
section \<open>Searching empty lists; running out of memory\<close>

lemma find_seg_fit_empty: "GET8 s p = 0 \<Longrightarrow> find_seg_fit asize p s = Some 0"
  by (simp add: find_seg_fit_def)

lemma find_fit_loop_empty:
  assumes "p = seg_list_start s + 8 * i" and "i < 14"
    and "\<And>j. i \<le> j \<Longrightarrow> j < 14 \<Longrightarrow> GET8 s (seg_list_start s + 8 * j) = 0"
  shows "find_fit_loop asize p s = Some 0"
  using assms
proof (induction "13 - i" arbitrary: i p)
  case 0
  then have i: "i = 13" by simp
  have "find_seg_fit asize p s = Some 0"
    using 0(4)[of 13] 0(2) i by (intro find_seg_fit_empty) simp
  then show ?case
    using 0(2) i by (subst find_fit_loop.simps) (simp add: SEG_NUM_def DSIZE_def)
next
  case (Suc n)
  then have i: "i < 13" by simp
  have pe: "p + DSIZE = seg_list_start s + 8 * Suc i"
    using Suc.prems(1) by (simp add: DSIZE_def)
  have z: "find_seg_fit asize (p + DSIZE) s = Some 0"
    unfolding pe using Suc.prems(3)[of "Suc i"] i by (intro find_seg_fit_empty) simp
  have r: "find_fit_loop asize (p + DSIZE) s = Some 0"
  proof (rule Suc.hyps(1)[of "Suc i"])
    show "n = 13 - Suc i" using Suc.hyps(2) by simp
    show "p + DSIZE = seg_list_start s + 8 * Suc i" by (rule pe)
    show "Suc i < 14" using i by simp
    show "GET8 s (seg_list_start s + 8 * j) = 0" if "Suc i \<le> j" "j < 14" for j
      using Suc.prems(3)[of j] that by simp
  qed
  have c: "p < seg_list_start s + (SEG_NUM - 1) * DSIZE"
    using i Suc.prems(1) by (simp add: SEG_NUM_def DSIZE_def)
  show ?case
    using c by (subst find_fit_loop.simps) (simp add: Let_def z r)
qed

lemma find_fit_empty:
  assumes "\<And>j. seg_index asize \<le> j \<Longrightarrow> j < 14 \<Longrightarrow> GET8 s (seg_list_start s + 8 * j) = 0"
  shows "find_fit asize s = Some 0"
proof -
  have i: "seg_index asize < 14" by (simp add: seg_index_def)
  have p: "get_seg_listp s asize = seg_list_start s + 8 * seg_index asize"
    by (simp add: get_seg_listp_def DSIZE_def)
  have l: "find_fit_loop asize (get_seg_listp s asize) s = Some 0"
    using p i assms by (rule find_fit_loop_empty)
  have z: "find_seg_fit asize (get_seg_listp s asize) s = Some 0"
    unfolding p using assms[of "seg_index asize"] i by (intro find_seg_fit_empty) simp
  show ?thesis
    by (simp add: find_fit_def Let_def z l)
qed

lemma malloc_out_of_memory:
  assumes "heap_listp s \<noteq> 0" "sz \<noteq> 0"
    and "\<And>j. seg_index (adjust_size sz) \<le> j \<Longrightarrow> j < 14 \<Longrightarrow> GET8 s (seg_list_start s + 8 * j) = 0"
    and "mem_max_addr s < mem_brk s + unat (extend_size ((if adjust_size sz > CHUNKSIZE then adjust_size sz else CHUNKSIZE) div of_nat WSIZE))"
  shows "malloc sz s = Some (0, s)"
  using assms(1,2) find_fit_empty[of "adjust_size sz" s, OF assms(3)] extend_heap_no_room[OF assms(4)]
  by (simp add: malloc_def Let_def)

section \<open>A request whose adjusted size wraps around\<close>

lemma adjust_size_max: "adjust_size 18446744073709551615 = 8"
  by (simp add: adjust_size_def DSIZE_def WSIZE_def)

lemma low_word_136: "(34359738504 :: 32 word) = 136"
  by simp

lemma malloc_max_initial:
  assumes "mem_brk s = BASEADDR" "BASEADDR + 592 \<le> mem_max_addr s"
  shows "malloc 18446744073709551615 (snd (mm_init s)) =
    Some (BASEADDR + 128,
      PUT (BASEADDR + 140) 0 (PUT (BASEADDR + 136) 0 (PUT (BASEADDR + 44) 8
        (PUT (BASEADDR + 40) 136 (PUT (BASEADDR + 584) 456 (PUT (BASEADDR + 132) 458
          (PUT (BASEADDR + 124) 11 (PUT (BASEADDR + 44) 0 (PUT (BASEADDR + 40) 0
            (snd (mm_init s)))))))))))"
proof -
  define t where "t = snd (mm_init s)"
  note f = mm_init_facts(2-)[OF assms, folded t_def]
  have ff: "find_fit 8 t = Some (BASEADDR + 128)"
    using f
    apply (simp add: find_fit_def get_seg_listp_def seg_index_def find_seg_fit_def BASEADDR_def
        eval_simps split del: if_split cong: let_weak_cong)
    apply (subst find_fit_loop.simps)
    apply (simp add: find_seg_fit_def BASEADDR_def SEG_NUM_def eval_simps
        split del: if_split cong: let_weak_cong)
    apply (subst find_fit_loop.simps)
    apply (simp add: find_seg_fit_def BASEADDR_def SEG_NUM_def eval_simps
        split del: if_split cong: let_weak_cong)
    apply (subst find_fit_loop.simps)
    apply (simp add: find_seg_fit_def BASEADDR_def SEG_NUM_def eval_simps
        split del: if_split cong: let_weak_cong)
    apply (subst find_fit_loop.simps)
    apply (simp add: find_seg_fit_def BASEADDR_def SEG_NUM_def eval_simps
        split del: if_split cong: let_weak_cong)
    apply (subst find_fit_loop.simps)
    apply (simp add: find_seg_fit_def BASEADDR_def SEG_NUM_def eval_simps
        split del: if_split cong: let_weak_cong)
    done
  have pl: "place (BASEADDR + 128) 8 t =
      PUT (BASEADDR + 140) 0 (PUT (BASEADDR + 136) 0 (PUT (BASEADDR + 44) 8
        (PUT (BASEADDR + 40) 136 (PUT (BASEADDR + 584) 456 (PUT (BASEADDR + 132) 458
          (PUT (BASEADDR + 124) 11 (PUT (BASEADDR + 44) 0 (PUT (BASEADDR + 40) 0 t))))))))"
    using f
    apply (simp add: place_def remove_free_block_def get_seg_listp_def seg_index_def BASEADDR_def
        GET8_GET PUT8_PUT eval_simps split del: if_split cong: let_weak_cong)
    apply (simp add: add_free_block_def get_seg_listp_def seg_index_def BASEADDR_def low_word_136
        GET8_GET PUT8_PUT eval_simps split del: if_split cong: let_weak_cong)
    done
  have "heap_listp t \<noteq> 0" using f(2) by (simp add: BASEADDR_def)
  then show ?thesis
    unfolding t_def[symmetric]
    by (simp add: malloc_def adjust_size_max ff pl)
qed

lemma free_after_malloc_max:
  assumes "mem_brk s = BASEADDR" "BASEADDR + 592 \<le> mem_max_addr s"
  shows "GET (free (BASEADDR + 128) (snd (the (malloc 18446744073709551615 (snd (mm_init s))))))
           (BASEADDR + 124) = 10"
    and "GET (free (BASEADDR + 128) (snd (the (malloc 18446744073709551615 (snd (mm_init s))))))
           (BASEADDR + 132) = 0"
proof -
  define t where "t = snd (mm_init s)"
  note f = mm_init_facts(2-)[OF assms, folded t_def]
  let ?s2 = "PUT (BASEADDR + 140) 0 (PUT (BASEADDR + 136) 0 (PUT (BASEADDR + 44) 8
        (PUT (BASEADDR + 40) 136 (PUT (BASEADDR + 584) 456 (PUT (BASEADDR + 132) 458
          (PUT (BASEADDR + 124) 11 (PUT (BASEADDR + 44) 0 (PUT (BASEADDR + 40) 0 t))))))))"
  have fr: "GET (free (BASEADDR + 128) ?s2) (BASEADDR + 124) = 10
          \<and> GET (free (BASEADDR + 128) ?s2) (BASEADDR + 132) = 0"
    using f
    apply (simp add: free_def BASEADDR_def
        GET8_GET PUT8_PUT eval_simps split del: if_split cong: let_weak_cong)
    apply (simp add: add_free_block_def get_seg_listp_def seg_index_def BASEADDR_def
        GET8_GET PUT8_PUT eval_simps split del: if_split cong: let_weak_cong)
    apply (simp add: coalesce_def  BASEADDR_def
        GET8_GET PUT8_PUT eval_simps split del: if_split cong: let_weak_cong)
    apply (simp add: remove_free_block_def get_seg_listp_def seg_index_def BASEADDR_def
        GET8_GET PUT8_PUT eval_simps split del: if_split cong: let_weak_cong)
    apply (simp add: add_free_block_def get_seg_listp_def seg_index_def BASEADDR_def
        GET8_GET PUT8_PUT eval_simps split del: if_split cong: let_weak_cong)
    done
  show "GET (free (BASEADDR + 128) (snd (the (malloc 18446744073709551615 (snd (mm_init s))))))
           (BASEADDR + 124) = 10"
    and "GET (free (BASEADDR + 128) (snd (the (malloc 18446744073709551615 (snd (mm_init s))))))
           (BASEADDR + 132) = 0"
    using fr unfolding malloc_max_initial[OF assms] t_def by simp_all
qed

text \<open>
  C1 at the failing input.  On the initialised fresh heap, \<open>malloc\<close> of \<open>2^64 - 1\<close> bytes
  returns the first block cut down to 8 bytes (the adjusted size has wrapped around to 8);
  after \<open>free\<close> of that pointer the block is free and the block that follows it in address
  order has its allocated bit clear as well.
\<close>

theorem malloc_overflow_free_adjacent_free:
  "fst (the (malloc 18446744073709551615 (snd (mm_init fresh_heap)))) = BASEADDR + 128
   \<and> GET_ALLOC (free (BASEADDR + 128)
          (snd (the (malloc 18446744073709551615 (snd (mm_init fresh_heap))))))
        (HDRP (BASEADDR + 128)) = 0
   \<and> NEXT_BLKP (free (BASEADDR + 128)
          (snd (the (malloc 18446744073709551615 (snd (mm_init fresh_heap))))))
        (BASEADDR + 128) = BASEADDR + 136
   \<and> GET_ALLOC (free (BASEADDR + 128)
          (snd (the (malloc 18446744073709551615 (snd (mm_init fresh_heap))))))
        (HDRP (BASEADDR + 136)) = 0"
  using free_after_malloc_max[OF fresh_heap_room]
  by (simp add: malloc_max_initial[OF fresh_heap_room] macro_defs BASEADDR_def)

section \<open>calloc when the heap cannot grow\<close>

lemma tight_heap_room: "mem_brk tight_heap = BASEADDR" "BASEADDR + 592 \<le> mem_max_addr tight_heap"
  by (simp_all add: tight_heap_def fresh_heap_def)

lemma adjust_size_1000: "adjust_size 1000 = 1008"
  by (simp add: adjust_size_def DSIZE_def WSIZE_def)

lemma upper_slots:
  assumes "7 \<le> j" "j < 14"
  shows "j = 7 \<or> j = 8 \<or> j = 9 \<or> j = 10 \<or> j = 11 \<or> j = 12 \<or> j = (13::nat)"
  using assms by linarith

text \<open>
  C5 at the failing input.  With the arena exhausted, \<open>calloc(1, 1000)\<close> on the initialised
  heap finds no fit, the extension fails, \<open>malloc\<close> returns the null pointer, and \<open>calloc\<close>
  passes it to \<open>memset\<close> with length 1000: a store through the null pointer.
\<close>

theorem calloc_null_store:
  "malloc 1000 (snd (mm_init tight_heap)) = Some (0, snd (mm_init tight_heap))
   \<and> calloc 1 1000 (snd (mm_init tight_heap)) = Some (Inl NullStore)"
proof -
  define t where "t = snd (mm_init tight_heap)"
  note f = mm_init_facts(2-)[OF tight_heap_room, folded t_def]
  have z: "GET8 t (seg_list_start t + 8 * j) = 0" if "seg_index (adjust_size 1000) \<le> j" "j < 14" for j
  proof -
    have "7 \<le> j" using that(1) by (simp add: adjust_size_1000 seg_index_def)
    from upper_slots[OF this that(2)] show ?thesis
      using f by (auto simp add: BASEADDR_def)
  qed
  have e: "extend_size 252 = 1008"
    by (simp add: extend_size_def WSIZE_def DSIZE_def)
  have m: "malloc 1000 t = Some (0, t)"
  proof (rule malloc_out_of_memory)
    show "heap_listp t \<noteq> 0" using f(2) by (simp add: BASEADDR_def)
    show "(1000 :: 64 word) \<noteq> 0" by simp
    show "GET8 t (seg_list_start t + 8 * j) = 0" if "seg_index (adjust_size 1000) \<le> j" "j < 14" for j
      using that by (rule z)
    show "mem_max_addr t < mem_brk t + unat (extend_size ((if adjust_size 1000 > CHUNKSIZE
            then adjust_size 1000 else CHUNKSIZE) div of_nat WSIZE))"
      using f(3,4) by (simp add: adjust_size_1000 CHUNKSIZE_def WSIZE_def e tight_heap_def)
  qed
  show ?thesis
    unfolding t_def[symmetric] by (simp add: calloc_def m memset_def)
qed

section \<open>The placement policy\<close>

lemma chain_Cons:
  "chain s bp (x # rest) \<longleftrightarrow>
     x = bp \<and> (if rest = [] then GET_NEXT s bp = 0
                else GET_NEXT s bp \<noteq> 0 \<and> chain s (OFFSET_REAL (GET_NEXT s bp)) rest)"
  by (cases rest) auto

lemma chain_hd: "chain s bp xs \<Longrightarrow> \<exists>rest. xs = bp # rest"
  by (cases xs) (auto simp add: chain_Cons)

lemma OFFSET_REAL_nonzero: "OFFSET_REAL off \<noteq> 0"
  by (simp add: OFFSET_REAL_def BASEADDR_def)

lemma chain_nonzero: "chain s bp xs \<Longrightarrow> bp \<noteq> 0 \<Longrightarrow> 0 \<notin> set xs"
proof (induction xs arbitrary: bp)
  case Nil
  then show ?case by simp
next
  case (Cons x rest)
  show ?case
  proof (cases rest)
    case Nil
    with Cons.prems show ?thesis by auto
  next
    case (Cons y ys)
    with Cons.prems Cons.IH[of "OFFSET_REAL (GET_NEXT s bp)"] OFFSET_REAL_nonzero
    show ?thesis by auto
  qed
qed

lemma first_fit_loop_chain:
  "chain s bp (bp # rest) \<Longrightarrow> first_fit_loop A bp s = Some (first_fit s A rest)"
proof (induction rest arbitrary: bp)
  case Nil
  then show ?case
    by (subst first_fit_loop.simps) (simp add: first_fit_def)
next
  case (Cons y ys)
  let ?n = "OFFSET_REAL (GET_NEXT s bp)"
  from Cons.prems have n: "GET_NEXT s bp \<noteq> 0" and y: "y = ?n" and c: "chain s ?n (?n # ys)"
    using chain_hd[of s ?n "y # ys"] by auto
  show ?case
  proof (cases "A \<le> block_size s y")
    case True
    then show ?thesis
      using n y by (subst first_fit_loop.simps) (simp add: first_fit_def block_size_def)
  next
    case False
    then show ?thesis
      using n y Cons.IH[OF c]
      by (subst first_fit_loop.simps) (simp add: first_fit_def block_size_def)
  qed
qed


lemma first_smallest_single: "first_smallest s [r] = r"
  by (simp add: first_smallest_def)

lemma first_smallest_least:
  assumes "\<And>q. q \<in> set ys \<Longrightarrow> block_size s p \<le> block_size s q"
  shows "first_smallest s (p # ys) = p"
proof -
  have "Min (block_size s ` set (p # ys)) = block_size s p"
    by (rule Min_eqI) (use assms in auto)
  then show ?thesis by (simp add: first_smallest_def)
qed

lemma Min_insert_ge:
  fixes a :: "'a::linorder"
  assumes "finite X" "X \<noteq> {}" "Min X \<le> a"
  shows "Min (insert a X) = Min X"
proof -
  have "Min (insert a X) = min a (Min X)"
    using assms(1,2) by (rule Min_insert)
  then show ?thesis by (simp only: min_absorb2[OF assms(3)])
qed

lemma first_smallest_drop_head:
  assumes "block_size s p < block_size s r"
  shows "first_smallest s (r # p # ys) = first_smallest s (p # ys)"
proof -
  define X where "X = block_size s ` set (p # ys)"
  have X: "finite X" "X \<noteq> {}" "block_size s p \<in> X" by (simp_all add: X_def)
  then have m: "Min X \<le> block_size s p" by simp
  have "block_size s ` set (r # p # ys) = insert (block_size s r) X" by (auto simp add: X_def)
  then have e: "Min (block_size s ` set (r # p # ys)) = Min X"
    using Min_insert_ge[OF X(1,2), of "block_size s r"] m assms by simp
  have "block_size s r \<noteq> Min X" using m assms by auto
  then show ?thesis unfolding first_smallest_def e X_def[symmetric]
    by (simp add: X_def[symmetric])
qed

lemma first_smallest_drop_second:
  assumes "block_size s r \<le> block_size s p"
  shows "first_smallest s (r # p # ys) = first_smallest s (r # ys)"
proof -
  define Z where "Z = block_size s ` set (r # ys)"
  have Z: "finite Z" "Z \<noteq> {}" "block_size s r \<in> Z" by (simp_all add: Z_def)
  then have m: "Min Z \<le> block_size s r" by simp
  have "block_size s ` set (r # p # ys) = insert (block_size s p) Z" by (auto simp add: Z_def)
  then have e: "Min (block_size s ` set (r # p # ys)) = Min Z"
    using Min_insert_ge[OF Z(1,2), of "block_size s p"] m assms by simp
  have "block_size s r \<noteq> Min Z \<Longrightarrow> block_size s p \<noteq> Min Z" using m assms by auto
  then show ?thesis unfolding first_smallest_def e Z_def[symmetric]
    by (auto simp add: Z_def[symmetric])
qed

lemma best_fit_loop_chain:
  assumes "chain s bp (bp # rest)" and "0 \<notin> set rest"
  shows "(result = 0 \<longrightarrow> best_fit_loop A bp small result s = Some (best_fit s A rest))
       \<and> (result \<noteq> 0 \<and> A < block_size s result \<and> small = block_size s result \<longrightarrow>
            best_fit_loop A bp small result s = Some (best_fit s A (result # rest)))"
  using assms
proof (induction rest arbitrary: bp small result)
  case Nil
  then have l: "best_fit_loop A bp sm res s = Some res" for sm res
    by (subst best_fit_loop.simps) simp
  show ?case
    by (auto simp add: l best_fit_def first_smallest_single)
next
  case (Cons y ys)
  let ?n = "OFFSET_REAL (GET_NEXT s bp)"
  let ?F = "filter (\<lambda>p. A \<le> block_size s p)"
  from Cons.prems have n: "GET_NEXT s bp \<noteq> 0" and y: "?n = y" and c: "chain s y (y # ys)"
    and y0: "y \<noteq> 0" and z: "0 \<notin> set ys"
    using chain_hd[of s ?n "y # ys"] by auto
  note IH = Cons.IH[OF c z]
  have b: "ucast (GET_SIZE s (HDRP y)) = block_size s y" by (simp add: block_size_def)
  have step: "best_fit_loop A bp small result s =
      (if A = block_size s y then Some y
       else if A < block_size s y \<and> (result = 0 \<or> block_size s y < small)
            then best_fit_loop A y (block_size s y) y s
            else best_fit_loop A y small result s)"
    using n by (subst best_fit_loop.simps) (auto simp add: y b Let_def)
  have ge: "A \<le> block_size s q" if "q \<in> set (?F ys)" for q using that by simp
  consider (exact) "A = block_size s y"
    | (better) "A \<noteq> block_size s y" "A < block_size s y" "result = 0 \<or> block_size s y < small"
    | (small) "block_size s y < A"
    | (worse) "A < block_size s y" "result \<noteq> 0" "small \<le> block_size s y"
    by fastforce
  then show ?case
  proof cases
    case exact
    have l: "best_fit_loop A bp small result s = Some y"
      using step exact by simp
    have 1: "first_smallest s (y # ?F ys) = y"
      by (rule first_smallest_least) (use exact ge in auto)
    have 2: "A < block_size s result \<Longrightarrow>
        first_smallest s (result # y # ?F ys) = y"
      using first_smallest_drop_head[of s y result "?F ys"] exact 1 by simp
    have "best_fit s A (y # ys) = y"
      using exact 1 by (simp add: best_fit_def)
    moreover have "best_fit s A (result # y # ys) = y" if lt: "A < block_size s result"
    proof -
      from lt have "A \<le> block_size s result" by simp
      then show ?thesis using exact 2[OF lt] by (simp add: best_fit_def)
    qed
    ultimately show ?thesis
      unfolding l by simp
  next
    case better
    have l: "best_fit_loop A bp small result s = best_fit_loop A y (block_size s y) y s"
      using step better by simp
    from IH[of y "block_size s y"] y0 better(2)
    have r: "best_fit_loop A y (block_size s y) y s = Some (best_fit s A (y # ys))" by simp
    have 2: "A < block_size s result \<Longrightarrow> small = block_size s result \<Longrightarrow> result \<noteq> 0 \<Longrightarrow>
        best_fit s A (result # y # ys) = best_fit s A (y # ys)"
      using first_smallest_drop_head[of s y result "?F ys"] better
      by (auto simp add: best_fit_def)
    show ?thesis
      unfolding l r using 2 by simp
  next
    case small
    have l: "best_fit_loop A bp small result s = best_fit_loop A y small result s"
      using step small by auto
    from small have f: "?F (y # ys) = ?F ys" "?F (result # y # ys) = ?F (result # ys)" by auto
    have e: "best_fit s A (y # ys) = best_fit s A ys"
      "best_fit s A (result # y # ys) = best_fit s A (result # ys)"
      unfolding best_fit_def f by simp_all
    show ?thesis
      unfolding l e using IH[of result small] by simp
  next
    case worse
    have l: "best_fit_loop A bp small result s = best_fit_loop A y small result s"
      using step worse by auto
    have 2: "A < block_size s result \<Longrightarrow> small = block_size s result \<Longrightarrow>
        best_fit s A (result # y # ys) = best_fit s A (result # ys)"
      using first_smallest_drop_second[of s result y "?F ys"] worse
      by (auto simp add: best_fit_def)
    show ?thesis
      unfolding l using worse(2) IH[of result small] 2 by simp
  qed
qed


lemma first_smallest_in: "ys \<noteq> [] \<Longrightarrow> first_smallest s ys \<in> set ys"
proof -
  assume ne: "ys \<noteq> []"
  let ?m = "Min (block_size s ` set ys)"
  have "?m \<in> block_size s ` set ys" using ne by (intro Min_in) simp_all
  then have "filter (\<lambda>p. block_size s p = ?m) ys \<noteq> []"
    by (auto simp add: filter_empty_conv)
  then have "hd (filter (\<lambda>p. block_size s p = ?m) ys) \<in> set (filter (\<lambda>p. block_size s p = ?m) ys)"
    by (rule hd_in_set)
  then show ?thesis by (simp add: first_smallest_def)
qed

lemma first_fit_cases:
  "first_fit s A xs = 0 \<and> (\<forall>p\<in>set xs. \<not> A \<le> block_size s p)
   \<or> first_fit s A xs \<in> set xs \<and> A \<le> block_size s (first_fit s A xs)"
proof (cases "filter (\<lambda>p. A \<le> block_size s p) xs")
  case Nil
  then show ?thesis by (auto simp add: first_fit_def filter_empty_conv)
next
  case (Cons p ps)
  then have "p \<in> set (filter (\<lambda>p. A \<le> block_size s p) xs)" by simp
  then have "p \<in> set xs" "A \<le> block_size s p" by simp_all
  then show ?thesis using Cons by (simp add: first_fit_def)
qed

lemma best_fit_cases:
  "best_fit s A xs = 0 \<and> (\<forall>p\<in>set xs. \<not> A \<le> block_size s p)
   \<or> best_fit s A xs \<in> set xs \<and> A \<le> block_size s (best_fit s A xs)"
proof (cases "filter (\<lambda>p. A \<le> block_size s p) xs = []")
  case True
  then show ?thesis by (auto simp add: best_fit_def filter_empty_conv)
next
  case False
  from first_smallest_in[OF False, of s]
  show ?thesis using False by (simp add: best_fit_def)
qed

lemma seg_fit_cases:
  "seg_fit s A xs = 0 \<and> (\<forall>p\<in>set xs. \<not> A \<le> block_size s p)
   \<or> seg_fit s A xs \<in> set xs \<and> A \<le> block_size s (seg_fit s A xs)"
  using first_fit_cases[of s A xs] best_fit_cases[of s A xs] by (simp add: seg_fit_def)

lemma seg_list_nonzero: "seg_list s i xs \<Longrightarrow> 0 \<notin> set xs"
proof -
  assume a: "seg_list s i xs"
  show ?thesis
  proof (cases "GET8 s (seg_list_start s + i * DSIZE) = 0")
    case True
    with a show ?thesis by (simp add: seg_list_def)
  next
    case False
    then have "unat (GET8 s (seg_list_start s + i * DSIZE)) \<noteq> 0" by (simp add: unat_eq_0)
    moreover from a False have "chain s (unat (GET8 s (seg_list_start s + i * DSIZE))) xs"
      by (simp add: seg_list_def)
    ultimately show ?thesis by (rule chain_nonzero[rotated])
  qed
qed

lemma find_seg_fit_list:
  assumes "seg_list s i xs"
  shows "find_seg_fit A (seg_list_start s + i * DSIZE) s = Some (seg_fit s A xs)"
proof (cases "GET8 s (seg_list_start s + i * DSIZE) = 0")
  case True
  with assms have "xs = []" by (simp add: seg_list_def)
  then show ?thesis
    using True by (simp add: find_seg_fit_def seg_fit_def first_fit_def best_fit_def)
next
  case False
  define bp where "bp = unat (GET8 s (seg_list_start s + i * DSIZE))"
  from assms False have c: "chain s bp xs" by (simp add: seg_list_def bp_def)
  then obtain rest where xs: "xs = bp # rest" using chain_hd by blast
  from seg_list_nonzero[OF assms] xs have nz: "bp \<noteq> 0" "0 \<notin> set rest" by auto
  note c' = c[unfolded xs]
  have b: "ucast (GET_SIZE s (HDRP bp)) = block_size s bp" by (simp add: block_size_def)
  have f: "find_seg_fit A (seg_list_start s + i * DSIZE) s =
      (if A < 960 then (if A \<le> block_size s bp then Some bp else first_fit_loop A bp s)
       else if A = block_size s bp then Some bp
       else if A < block_size s bp then best_fit_loop A bp (block_size s bp) bp s
       else best_fit_loop A bp 0 0 s)"
    using False by (simp add: find_seg_fit_def Let_def bp_def[symmetric] b)
  show ?thesis
  proof (cases "A < 960")
    case True
    show ?thesis
      unfolding f seg_fit_def xs using True first_fit_loop_chain[OF c', of A]
      by (simp add: first_fit_def)
  next
    case False
    have ge: "A \<le> block_size s q" if "q \<in> set (filter (\<lambda>p. A \<le> block_size s p) rest)" for q
      using that by simp
    consider (exact) "A = block_size s bp" | (larger) "A < block_size s bp"
      | (smaller) "block_size s bp < A" by fastforce
    then show ?thesis
    proof cases
      case exact
      have "first_smallest s (bp # filter (\<lambda>p. A \<le> block_size s p) rest) = bp"
        by (rule first_smallest_least) (use exact ge in auto)
      then show ?thesis
        unfolding f seg_fit_def xs using False exact by (simp add: best_fit_def)
    next
      case larger
      from best_fit_loop_chain[OF c' nz(2), of bp A "block_size s bp"] nz(1) larger
      have "best_fit_loop A bp (block_size s bp) bp s = Some (best_fit s A (bp # rest))"
        by simp
      moreover from larger have "A \<noteq> block_size s bp" by simp
      ultimately show ?thesis
        unfolding f seg_fit_def xs using False larger by simp
    next
      case smaller
      from best_fit_loop_chain[OF c' nz(2), of 0 A 0]
      have "best_fit_loop A bp 0 0 s = Some (best_fit s A rest)" by simp
      moreover from smaller have "\<not> A \<le> block_size s bp" by simp
      then have "best_fit s A (bp # rest) = best_fit s A rest"
        by (simp add: best_fit_def)
      moreover from smaller have "A \<noteq> block_size s bp" "\<not> A < block_size s bp" by simp_all
      ultimately show ?thesis
        unfolding f seg_fit_def xs using False by simp
    qed
  qed
qed


lemma first_nonzero_Cons:
  "first_nonzero (r # rs) = (if r \<noteq> 0 then r else first_nonzero rs)"
  by (simp add: first_nonzero_def)

lemma find_fit_loop_lists:
  assumes "\<And>j. j < 14 \<Longrightarrow> seg_list s j (L j)"
    and "p = seg_list_start s + i * DSIZE" and "i < 14"
  shows "find_fit_loop A p s =
           (if i = 13 then Some (seg_fit s A (L 13))
            else Some (first_nonzero (map (\<lambda>j. seg_fit s A (L j)) [Suc i ..< 14])))"
  using assms(2,3)
proof (induction "13 - i" arbitrary: i p)
  case 0
  then have i: "i = 13" by simp
  have "find_seg_fit A p s = Some (seg_fit s A (L 13))"
    unfolding 0(2) i by (rule find_seg_fit_list[OF assms(1)]) simp
  then show ?case
    using 0(2) i by (subst find_fit_loop.simps) (simp add: SEG_NUM_def DSIZE_def)
next
  case (Suc n)
  then have i: "i < 13" by simp
  have pe: "p + DSIZE = seg_list_start s + Suc i * DSIZE"
    using Suc.prems(1) by simp
  have z: "find_seg_fit A (p + DSIZE) s = Some (seg_fit s A (L (Suc i)))"
    unfolding pe by (rule find_seg_fit_list[OF assms(1)]) (use i in simp)
  have r: "find_fit_loop A (p + DSIZE) s =
           (if Suc i = 13 then Some (seg_fit s A (L 13))
            else Some (first_nonzero (map (\<lambda>j. seg_fit s A (L j)) [Suc (Suc i) ..< 14])))"
    by (rule Suc.hyps(1)[of "Suc i"]) (use Suc.hyps(2) pe i in simp_all)
  have c: "p < seg_list_start s + (SEG_NUM - 1) * DSIZE"
    using i Suc.prems(1) by (simp add: SEG_NUM_def DSIZE_def)
  have u: "[Suc i ..< 14] = Suc i # [Suc (Suc i) ..< 14]"
    using i by (simp add: upt_conv_Cons)
  have l: "find_fit_loop A p s =
      (if seg_fit s A (L (Suc i)) \<noteq> 0 then Some (seg_fit s A (L (Suc i)))
       else find_fit_loop A (p + DSIZE) s)"
    using c by (subst find_fit_loop.simps) (simp add: Let_def z)
  show ?case
  proof (cases "Suc i = 13")
    case True
    then have "[Suc (Suc i) ..< 14] = []" by simp
    then show ?thesis
      unfolding l r u using True i by (simp add: first_nonzero_Cons first_nonzero_def)
  next
    case False
    then show ?thesis
      unfolding l r u using i by (simp add: first_nonzero_Cons)
  qed
qed

lemma seg_index_unat: "seg_index a = seg_index_nat (unat a)"
  by (simp add: seg_index_def seg_index_nat_def word_less_nat_alt)

lemma seg_index_nat_mono: "m \<le> n \<Longrightarrow> seg_index_nat m \<le> seg_index_nat n"
  unfolding seg_index_nat_def by (simp split: if_splits)

lemma seg_index_mono: "a \<le> b \<Longrightarrow> seg_index a \<le> seg_index b"
  by (simp add: seg_index_unat seg_index_nat_mono word_le_nat_alt)

lemma find_fit_lists:
  assumes "\<And>j. j < 14 \<Longrightarrow> seg_list s j (L j)"
  shows "find_fit A s = Some (lists_fit s A L)"
proof -
  define i where "i = seg_index A"
  have i: "i < 14" by (simp add: i_def seg_index_def)
  have p: "get_seg_listp s A = seg_list_start s + i * DSIZE"
    by (simp add: get_seg_listp_def i_def)
  have z: "find_seg_fit A (get_seg_listp s A) s = Some (seg_fit s A (L i))"
    unfolding p by (rule find_seg_fit_list[OF assms(1)[OF i]])
  note l = find_fit_loop_lists[of s L "get_seg_listp s A" i A, OF assms p i]
  have u: "[i ..< 14] = i # [Suc i ..< 14]"
    using i by (simp add: upt_conv_Cons)
  have f: "lists_fit s A L = first_nonzero (map (\<lambda>j. seg_fit s A (L j)) [i ..< 14])"
    by (simp add: lists_fit_def i_def seg_index_unat)
  show ?thesis
  proof (cases "i = 13")
    case True
    then have "[Suc i ..< 14] = []" by simp
    then show ?thesis
      unfolding f u using True l z
      by (simp add: find_fit_def Let_def first_nonzero_Cons first_nonzero_def)
  next
    case False
    then show ?thesis
      unfolding f u using l z
      by (simp add: find_fit_def Let_def first_nonzero_Cons)
  qed
qed

lemma first_nonzero_cases:
  "first_nonzero rs = 0 \<and> (\<forall>r\<in>set rs. r = 0)
   \<or> first_nonzero rs \<noteq> 0 \<and> first_nonzero rs \<in> set rs"
proof (cases "filter (\<lambda>r. r \<noteq> 0) rs")
  case Nil
  then show ?thesis by (auto simp add: first_nonzero_def filter_empty_conv)
next
  case (Cons r rs')
  then have "r \<in> set (filter (\<lambda>r. r \<noteq> 0) rs)" by simp
  then have "r \<in> set rs" "r \<noteq> 0" by simp_all
  then show ?thesis using Cons by (simp add: first_nonzero_def)
qed

text \<open>
  C7.  Let the list of every class \<open>i\<close> be the node sequence \<open>L i\<close>, whatever the sizes of its
  nodes.  Then \<open>find_fit\<close> returns, and its result is the search as the specification words
  it: it starts at the list of the class that the class table gives for \<open>A\<close> and goes
  upwards to class 13, the first list that has a fit decides; within a list the first
  node of size at least \<open>A\<close> when \<open>A < 960\<close>, and otherwise the first node among those of the
  smallest size that is at least \<open>A\<close> (which is the first exact match if there is one).  A
  result other than the null pointer is a node of one of the lists and its size is at
  least \<open>A\<close>.  If moreover every node lies in the list of the class that the table gives
  for its size, the result is the null pointer if and only if no list holds a block of
  size at least \<open>A\<close>.
\<close>

theorem find_fit_policy:
  assumes lists: "\<forall>i<14. seg_list s i (L i)"
  shows "find_fit A s = Some (lists_fit s A L)
       \<and> (lists_fit s A L \<noteq> 0 \<longrightarrow>
            A \<le> block_size s (lists_fit s A L) \<and> (\<exists>i<14. lists_fit s A L \<in> set (L i)))
       \<and> ((\<forall>i<14. \<forall>p\<in>set (L i). seg_index_nat (unat (block_size s p)) = i) \<longrightarrow>
            (lists_fit s A L = 0 \<longleftrightarrow> (\<forall>i<14. \<forall>p\<in>set (L i). block_size s p < A)))"
proof -
  let ?rs = "map (\<lambda>i. seg_fit s A (L i)) [seg_index_nat (unat A) ..< 14]"
  have ff: "find_fit A s = Some (lists_fit s A L)"
    by (rule find_fit_lists) (use lists in simp)
  have nz: "0 \<notin> set (L i)" if "i < 14" for i
    using lists that seg_list_nonzero by blast
  have none: "lists_fit s A L = 0" if all: "\<forall>i<14. \<forall>p\<in>set (L i). block_size s p < A"
  proof -
    have "seg_fit s A (L i) = 0" if i: "i < 14" for i
    proof (rule ccontr)
      assume "seg_fit s A (L i) \<noteq> 0"
      with seg_fit_cases[of s A "L i"]
      have m: "seg_fit s A (L i) \<in> set (L i)" "A \<le> block_size s (seg_fit s A (L i))"
        by auto
      from all i m(1) have "block_size s (seg_fit s A (L i)) < A" by blast
      with m(2) show False by simp
    qed
    then have "\<forall>r\<in>set ?rs. r = 0" by auto
    then show ?thesis
      using first_nonzero_cases[of ?rs] by (auto simp add: lists_fit_def)
  qed
  have some: "A \<le> block_size s (lists_fit s A L) \<and> (\<exists>i<14. lists_fit s A L \<in> set (L i))"
    if r: "lists_fit s A L \<noteq> 0"
  proof -
    from first_nonzero_cases[of ?rs] r
    have "lists_fit s A L \<in> set ?rs" by (auto simp add: lists_fit_def)
    then obtain i where i: "i < 14" "lists_fit s A L = seg_fit s A (L i)" by auto
    with seg_fit_cases[of s A "L i"] r show ?thesis by auto
  qed
  have all: "block_size s p < A"
    if classes: "\<forall>i<14. \<forall>p\<in>set (L i). seg_index_nat (unat (block_size s p)) = i"
      and z: "lists_fit s A L = 0" and i: "i < 14" and p: "p \<in> set (L i)"
    for i p
  proof (cases "seg_index_nat (unat A) \<le> i")
    case True
    from first_nonzero_cases[of ?rs] z
    have "\<forall>r\<in>set ?rs. r = 0" by (auto simp add: lists_fit_def)
    then have "seg_fit s A (L i) = 0" using True i by auto
    with seg_fit_cases[of s A "L i"] nz[OF i] p show ?thesis by (auto simp add: not_le)
  next
    case False
    have "seg_index_nat (unat (block_size s p)) = i" using classes i p by blast
    with False have "\<not> seg_index_nat (unat A) \<le> seg_index_nat (unat (block_size s p))"
      by simp
    then have "\<not> unat A \<le> unat (block_size s p)" using seg_index_nat_mono by blast
    then show ?thesis by (simp add: word_le_nat_alt word_less_nat_alt)
  qed
  from ff none some all show ?thesis by blast
qed


lemma less_14_cases:
  assumes "i < 14"
  shows "i = 0 \<or> i = 1 \<or> i = 2 \<or> i = 3 \<or> i = 4 \<or> i = 5 \<or> i = 6 \<or> i = 7 \<or> i = 8
       \<or> i = 9 \<or> i = 10 \<or> i = 11 \<or> i = 12 \<or> i = (13::nat)"
proof (cases "i < 7")
  case True
  then have "i = 0 \<or> i = 1 \<or> i = 2 \<or> i = 3 \<or> i = 4 \<or> i = 5 \<or> i = 6" by linarith
  then show ?thesis by blast
next
  case False
  with assms have "i = 7 \<or> i = 8 \<or> i = 9 \<or> i = 10 \<or> i = 11 \<or> i = 12 \<or> i = 13"
    by linarith
  then show ?thesis by blast
qed

lemma GET_fresh: "mem s = (\<lambda>_. 0) \<Longrightarrow> GET s p = 0"
  by (simp add: GET_def load32_def)

lemma GET8_fresh: "mem s = (\<lambda>_. 0) \<Longrightarrow> GET8 s p = 0"
  by (simp add: GET8_GET GET_fresh)

lemma listed_heap_words:
  "seg_list_start listed_heap = BASEADDR"
  "GET listed_heap (BASEADDR + 124) = 1202"
  "GET listed_heap (BASEADDR + 132) = 2128"
  "GET listed_heap (BASEADDR + 2124) = 1002"
  "GET listed_heap (BASEADDR + 2132) = 3128"
  "GET listed_heap (BASEADDR + 3124) = 1002"
  "GET listed_heap (BASEADDR + 3132) = 0"
  "GET listed_heap (BASEADDR + 5124) = 2002"
  "GET listed_heap (BASEADDR + 5132) = 0"
  by (simp_all add: listed_heap_def heap_simps GET_fresh fresh_heap_def)

lemma listed_heap_slots:
  "GET8 listed_heap (BASEADDR + 0) = 0"
  "GET8 listed_heap (BASEADDR + 8) = 0"
  "GET8 listed_heap (BASEADDR + 16) = 0"
  "GET8 listed_heap (BASEADDR + 24) = 0"
  "GET8 listed_heap (BASEADDR + 32) = 0"
  "GET8 listed_heap (BASEADDR + 40) = 0"
  "GET8 listed_heap (BASEADDR + 48) = 0"
  "GET8 listed_heap (BASEADDR + 56) = of_nat (BASEADDR + 128)"
  "GET8 listed_heap (BASEADDR + 64) = of_nat (BASEADDR + 5128)"
  "GET8 listed_heap (BASEADDR + 72) = 0"
  "GET8 listed_heap (BASEADDR + 80) = 0"
  "GET8 listed_heap (BASEADDR + 88) = 0"
  "GET8 listed_heap (BASEADDR + 96) = 0"
  "GET8 listed_heap (BASEADDR + 104) = 0"
  by (simp_all add: listed_heap_def heap_simps GET8_fresh fresh_heap_def)


theorem find_fit_policy_witness:
  "find_fit 968 listed_heap = Some (BASEADDR + 2128)
   \<and> find_fit 1000 listed_heap = Some (BASEADDR + 2128)
   \<and> find_fit 952 listed_heap = Some (BASEADDR + 128)
   \<and> find_fit 1208 listed_heap = Some (BASEADDR + 5128)
   \<and> find_fit 2008 listed_heap = Some 0
   \<and> block_size listed_heap (BASEADDR + 128) = 1200
   \<and> block_size listed_heap (BASEADDR + 2128) = 1000
   \<and> block_size listed_heap (BASEADDR + 3128) = 1000
   \<and> block_size listed_heap (BASEADDR + 5128) = 2000
   \<and> find_fit 16 (snd (mm_init fresh_heap)) = Some (BASEADDR + 128)
   \<and> block_size (snd (mm_init fresh_heap)) (BASEADDR + 128) = 464"
proof -
  define t where "t = snd (mm_init fresh_heap)"
  define L :: "nat \<Rightarrow> addr list" where "L = (\<lambda>i. if i = 5 then [BASEADDR + 128] else [])"
  define M :: "nat \<Rightarrow> addr list" where
    "M = (\<lambda>i. if i = 7 then [BASEADDR + 128, BASEADDR + 2128, BASEADDR + 3128]
              else if i = 8 then [BASEADDR + 5128] else [])"
  note f = mm_init_facts(2-)[OF fresh_heap_room, folded t_def]
  note g = listed_heap_words listed_heap_slots
  have bs: "block_size t (BASEADDR + 128) = 464"
    using f by (simp add: block_size_def macro_defs BASEADDR_def)
  have bm: "block_size listed_heap (BASEADDR + 128) = 1200"
    "block_size listed_heap (BASEADDR + 2128) = 1000"
    "block_size listed_heap (BASEADDR + 3128) = 1000"
    "block_size listed_heap (BASEADDR + 5128) = 2000"
    using g by (simp_all add: block_size_def macro_defs BASEADDR_def)
  have h1: "\<forall>i<14. seg_list t i (L i)"
  proof (intro allI impI)
    fix i :: nat assume "i < 14"
    from less_14_cases[OF this] show "seg_list t i (L i)"
      using f by (auto simp add: seg_list_def L_def macro_defs BASEADDR_def)
  qed
  have h2: "\<forall>i<14. \<forall>p\<in>set (L i). seg_index_nat (unat (block_size t p)) = i"
    by (simp add: L_def bs seg_index_nat_def)
  have m1: "\<forall>i<14. seg_list listed_heap i (M i)"
  proof (intro allI impI)
    fix i :: nat assume "i < 14"
    from less_14_cases[OF this] show "seg_list listed_heap i (M i)"
      using g by (auto simp add: seg_list_def M_def macro_defs BASEADDR_def)
  qed
  have m2: "\<forall>i<14. \<forall>p\<in>set (M i). seg_index_nat (unat (block_size listed_heap p)) = i"
    by (simp add: M_def bm seg_index_nat_def)
  have u16: "[seg_index_nat (unat (16 :: 64 word)) ..< 14]
               = [1, 2, 3, 4, 5, 6, 7, 8, 9, 10, 11, 12, 13]"
    and u6: "[seg_index_nat (unat (952 :: 64 word)) ..< 14] = [6, 7, 8, 9, 10, 11, 12, 13]"
    and u7: "[seg_index_nat (unat (968 :: 64 word)) ..< 14] = [7, 8, 9, 10, 11, 12, 13]"
      "[seg_index_nat (unat (1000 :: 64 word)) ..< 14] = [7, 8, 9, 10, 11, 12, 13]"
      "[seg_index_nat (unat (1208 :: 64 word)) ..< 14] = [7, 8, 9, 10, 11, 12, 13]"
    and u8: "[seg_index_nat (unat (2008 :: 64 word)) ..< 14] = [8, 9, 10, 11, 12, 13]"
    by (simp_all add: seg_index_nat_def upt_conv_Cons)
  have l: "lists_fit t 16 L = BASEADDR + 128"
    unfolding lists_fit_def u16
    by (simp add: first_nonzero_def seg_fit_def first_fit_def L_def bs)
  have nz: "BASEADDR + 128 \<noteq> 0" "BASEADDR + 2128 \<noteq> 0" "BASEADDR + 5128 \<noteq> 0"
    by (simp_all add: BASEADDR_def)
  have a: "lists_fit listed_heap 968 M = BASEADDR + 2128"
    unfolding lists_fit_def u7
    by (simp add: first_nonzero_def seg_fit_def best_fit_def first_smallest_def M_def bm nz)
  have b: "lists_fit listed_heap 1000 M = BASEADDR + 2128"
    unfolding lists_fit_def u7
    by (simp add: first_nonzero_def seg_fit_def best_fit_def first_smallest_def M_def bm nz)
  have c: "lists_fit listed_heap 952 M = BASEADDR + 128"
    unfolding lists_fit_def u6
    by (simp add: first_nonzero_def seg_fit_def first_fit_def M_def bm nz)
  have d: "lists_fit listed_heap 1208 M = BASEADDR + 5128"
    unfolding lists_fit_def u7
    by (simp add: first_nonzero_def seg_fit_def best_fit_def first_smallest_def M_def bm nz)
  have e: "lists_fit listed_heap 2008 M = 0"
    unfolding lists_fit_def u8
    by (simp add: first_nonzero_def seg_fit_def best_fit_def first_smallest_def M_def bm nz)
  from find_fit_policy[OF h1, of 16] find_fit_policy[OF m1, of 968]
    find_fit_policy[OF m1, of 1000] find_fit_policy[OF m1, of 952]
    find_fit_policy[OF m1, of 1208] find_fit_policy[OF m1, of 2008]
  show ?thesis
    unfolding t_def[symmetric] l a b c d e using bs bm h2 m2 by simp
qed

section \<open>Bytes of stored words\<close>

lemma no_high_bit: "8 \<le> k \<Longrightarrow> \<not> bit (b :: 8 word) k"
  using bit_imp_le_length[of b k] by auto

lemma byte0_of_load32: "ucast (load32 m p) = m p"
proof (rule bit_word_eqI)
  fix n assume "n < LENGTH(8)"
  then have n: "n < 8" "n < 32" "\<not> 8 \<le> n" "\<not> 16 \<le> n" "\<not> 24 \<le> n" by simp_all
  show "bit (ucast (load32 m p) :: 8 word) n = bit (m p) n"
    unfolding load32_def using n
    by (simp add: bit_ucast_iff bit_or_iff bit_push_bit_iff)
qed

lemma byte1_of_load32: "ucast (drop_bit 8 (load32 m p)) = m (p + 1)"
proof (rule bit_word_eqI)
  fix n assume "n < LENGTH(8)"
  then have n: "n < 8" "8 + n < 32" "8 \<le> 8 + n" "\<not> 16 \<le> 8 + n" "\<not> 24 \<le> 8 + n" "8 + n - 8 = n"
    by simp_all
  have z: "\<not> bit (m p) (8 + n)" by (rule no_high_bit) simp
  show "bit (ucast (drop_bit 8 (load32 m p)) :: 8 word) n = bit (m (p + 1)) n"
    unfolding load32_def using n z
    by (simp add: bit_ucast_iff bit_or_iff bit_push_bit_iff bit_drop_bit_eq)
qed

lemma byte2_of_load32: "ucast (drop_bit 16 (load32 m p)) = m (p + 2)"
proof (rule bit_word_eqI)
  fix n assume "n < LENGTH(8)"
  then have n: "n < 8" "16 + n < 32" "8 \<le> 16 + n" "16 \<le> 16 + n" "\<not> 24 \<le> 16 + n"
    "16 + n - 16 = n" "16 + n - 8 = 8 + n"
    by simp_all
  have z: "\<not> bit (m p) (16 + n)" "\<not> bit (m (p + 1)) (8 + n)" by (rule no_high_bit; simp)+
  show "bit (ucast (drop_bit 16 (load32 m p)) :: 8 word) n = bit (m (p + 2)) n"
    unfolding load32_def using n z
    by (simp add: bit_ucast_iff bit_or_iff bit_push_bit_iff bit_drop_bit_eq)
qed

lemma byte3_of_load32: "ucast (drop_bit 24 (load32 m p)) = m (p + 3)"
proof (rule bit_word_eqI)
  fix n assume "n < LENGTH(8)"
  then have n: "n < 8" "24 + n < 32" "8 \<le> 24 + n" "16 \<le> 24 + n" "24 \<le> 24 + n"
    "24 + n - 24 = n" "24 + n - 8 = 16 + n" "24 + n - 16 = 8 + n"
    by simp_all
  have z: "\<not> bit (m p) (24 + n)" "\<not> bit (m (p + 1)) (16 + n)" "\<not> bit (m (p + 2)) (8 + n)"
    by (rule no_high_bit; simp)+
  show "bit (ucast (drop_bit 24 (load32 m p)) :: 8 word) n = bit (m (p + 3)) n"
    unfolding load32_def using n z
    by (simp add: bit_ucast_iff bit_or_iff bit_push_bit_iff bit_drop_bit_eq)
qed

lemma no_high_bit32: "32 \<le> k \<Longrightarrow> \<not> bit (b :: 32 word) k"
  using bit_imp_le_length[of b k] by auto

lemma low_of_load64: "ucast (load64 m p) = load32 m p"
proof (rule bit_word_eqI)
  fix n assume "n < LENGTH(32)"
  then have n: "n < 32" "n < 64" "\<not> 32 \<le> n" by simp_all
  show "bit (ucast (load64 m p) :: 32 word) n = bit (load32 m p) n"
    unfolding load64_def using n
    by (simp add: bit_ucast_iff bit_or_iff bit_push_bit_iff)
qed

lemma high_of_load64: "ucast (drop_bit 32 (load64 m p)) = load32 m (p + 4)"
proof (rule bit_word_eqI)
  fix n assume "n < LENGTH(32)"
  then have n: "n < 32" "32 + n < 64" "32 \<le> 32 + n" "32 + n - 32 = n" by simp_all
  have z: "\<not> bit (load32 m p) (32 + n)" by (rule no_high_bit32) simp
  show "bit (ucast (drop_bit 32 (load64 m p)) :: 32 word) n = bit (load32 m (p + 4)) n"
    unfolding load64_def using n z
    by (simp add: bit_ucast_iff bit_or_iff bit_push_bit_iff bit_drop_bit_eq)
qed


lemma store32_load32: "store32 m p (load32 m0 p) a = (if p \<le> a \<and> a < p + 4 then m0 a else m a)"
proof (cases "p \<le> a \<and> a < p + 4")
  case True
  then have "a = p \<or> a = p + 1 \<or> a = p + 2 \<or> a = p + 3" by linarith
  then show ?thesis
    using True
    by (auto simp add: store32_def byte0_of_load32 byte1_of_load32 byte2_of_load32
        byte3_of_load32)
next
  case False
  then show ?thesis by (auto simp add: store32_frame)
qed


lemma store64_load64: "store64 m p (load64 m0 p) a = (if p \<le> a \<and> a < p + 8 then m0 a else m a)"
  unfolding store64_def low_of_load64 high_of_load64
  by (simp add: store32_load32)

lemma mem_PUT_restore:
  "GET s0 p = v \<Longrightarrow> mem (PUT p v s) a = (if p \<le> a \<and> a < p + 4 then mem s0 a else mem s a)"
  by (auto simp add: PUT_def GET_def store32_load32)

lemma mem_PUT8_restore:
  "GET8 s0 p = v \<Longrightarrow> mem (PUT8 p v s) a = (if p \<le> a \<and> a < p + 8 then mem s0 a else mem s a)"
  by (auto simp add: PUT8_def GET8_def store64_load64)

lemma GET8_frame:
  assumes "\<And>a. p \<le> a \<Longrightarrow> a < p + 8 \<Longrightarrow> mem s' a = mem s a"
  shows "GET8 s' p = GET8 s p"
proof -
  have "load32 (mem s') p = load32 (mem s) p"
    by (rule load32_frame) (use assms in simp)
  moreover have "load32 (mem s') (p + 4) = load32 (mem s) (p + 4)"
    by (rule load32_frame) (use assms in simp)
  ultimately show ?thesis by (simp add: GET8_def load64_def)
qed


section \<open>Inserting a block into its list and removing it again\<close>

lemma unat_BASEADDR: "unat (of_nat BASEADDR :: 64 word) = BASEADDR"
  by (simp add: BASEADDR_def)

lemma offset_round_trip:
  fixes f :: "64 word"
  assumes "BASEADDR < unat f" "unat f < BASEADDR + 2 ^ 32"
  shows "(ucast (f - of_nat BASEADDR) :: 32 word) \<noteq> 0"
    and "OFFSET_REAL (ucast (f - of_nat BASEADDR)) = unat f"
    and "ucast (ucast (f - of_nat BASEADDR) :: 32 word) + of_nat BASEADDR = f"
proof -
  define d where "d = f - of_nat BASEADDR"
  have le: "(of_nat BASEADDR :: 64 word) \<le> f"
    using assms(1) by (simp add: word_le_nat_alt unat_BASEADDR)
  have ud: "unat d = unat f - BASEADDR"
    unfolding d_def using le by (simp add: unat_sub unat_BASEADDR)
  then have small: "unat d < 2 ^ 32" and pos: "0 < unat d" using assms by simp_all
  have u32: "unat (ucast d :: 32 word) = unat d"
    by (rule unat_ucast_size[OF small])
  show "(ucast (f - of_nat BASEADDR) :: 32 word) \<noteq> 0"
    using u32 pos unfolding d_def[symmetric] by (auto simp add: unat_eq_0[symmetric])
  show "OFFSET_REAL (ucast (f - of_nat BASEADDR)) = unat f"
    unfolding d_def[symmetric] OFFSET_REAL_def u32 ud using assms(1) by simp
  have "unat (ucast (ucast d :: 32 word) :: 64 word) = unat d"
    using small by (simp add: unsigned_ucast_eq unsigned_take_bit_eq take_bit_nat_eq_self)
  then have "(ucast (ucast d :: 32 word) :: 64 word) = d"
    by (simp add: word_unat_eq_iff)
  then show "ucast (ucast (f - of_nat BASEADDR) :: 32 word) + of_nat BASEADDR = f"
    unfolding d_def[symmetric] by (simp add: d_def)
qed

lemma seg_index_less: "seg_index z < 14"
  by (simp add: seg_index_def)

lemma get_seg_listp_bounds:
  "seg_list_start s \<le> get_seg_listp s z"
  "get_seg_listp s z + 8 \<le> seg_list_start s + SEG_NUM * DSIZE"
  using seg_index_less[of z] by (simp_all add: get_seg_listp_def SEG_NUM_def DSIZE_def)



lemma round_trip_empty:
  assumes dir: "seg_list_start s + SEG_NUM * DSIZE + WSIZE \<le> b"
    and emp: "list_head s b = 0"
    and out: "a < b \<or> b + 8 \<le> a"
  shows "mem (remove_free_block b (add_free_block b s)) a = mem s a"
proof -
  define slot where "slot = get_seg_listp s (ucast (GET_SIZE s (HDRP b)))"
  obtain k where k: "b = k + 4"
    using dir by (metis WSIZE_def le_Suc_ex add.commute le_add2 le_trans)
  have sl: "slot + 8 \<le> k"
    using get_seg_listp_bounds(2)[of s "ucast (GET_SIZE s (HDRP b))"] dir
    by (simp add: slot_def WSIZE_def k)
  have hk: "HDRP b = k" by (simp add: HDRP_def WSIZE_def k)
  have emp': "GET8 s slot = 0" using emp by (simp add: list_head_def slot_def)
  define s1 where "s1 = PUT (k + 4 + 4) 0 (PUT (k + 4) 0 (PUT8 slot (of_nat b) s))"
  have add: "add_free_block b s = s1"
    unfolding add_free_block_def Let_def slot_def[symmetric]
    by (simp add: emp' s1_def SET_NEXT_def SET_PREV_def WSIZE_def k)
  have hdr: "GET s1 (HDRP b) = GET s (HDRP b)"
    using sl by (simp add: s1_def hk GET_PUT_other GET_PUT8_other)
  have "seg_list_start s1 = seg_list_start s"
    by (simp add: s1_def PUT_fields PUT8_fields)
  then have slot1: "get_seg_listp s1 (ucast (GET_SIZE s1 (HDRP b))) = slot"
    by (simp add: get_seg_listp_def GET_SIZE_def hdr slot_def)
  have p1: "GET_PREV s1 b = 0"
    by (simp add: GET_PREV_def s1_def k GET_PUT_other GET_PUT_same)
  have n1: "GET_NEXT s1 b = 0"
    by (simp add: GET_NEXT_def WSIZE_def s1_def k GET_PUT_same)
  have rem: "remove_free_block b s1 = PUT8 slot 0 s1"
    unfolding remove_free_block_def Let_def slot1 by (simp add: p1 n1)
  have "mem (PUT8 slot 0 s1) a = (if slot \<le> a \<and> a < slot + 8 then mem s a else mem s1 a)"
    by (rule mem_PUT8_restore) (rule emp')
  moreover have "mem s1 a = mem s a" if "\<not> (slot \<le> a \<and> a < slot + 8)"
    using that out by (auto simp add: s1_def k mem_PUT_frame mem_PUT8_frame)
  ultimately show ?thesis by (simp add: add rem)
qed

lemma round_trip_head:
  assumes dir: "seg_list_start s + SEG_NUM * DSIZE + WSIZE \<le> b"
    and ne: "list_head s b \<noteq> 0"
    and rng: "BASEADDR < unat (list_head s b)" "unat (list_head s b) < BASEADDR + 2 ^ 32"
    and hp: "GET_PREV s (unat (list_head s b)) = 0"
    and sep: "unat (list_head s b) + 4 \<le> HDRP b \<or> b + 8 \<le> unat (list_head s b)"
    and hd: "seg_list_start s + SEG_NUM * DSIZE \<le> unat (list_head s b)"
    and out: "a < b \<or> b + 8 \<le> a"
  shows "mem (remove_free_block b (add_free_block b s)) a = mem s a"
proof -
  define slot where "slot = get_seg_listp s (ucast (GET_SIZE s (HDRP b)))"
  define f where "f = list_head s b"
  define h where "h = unat f"
  define n where "n = (ucast (f - of_nat BASEADDR) :: 32 word)"
  define v where "v = (ucast ((of_nat b :: 64 word) - of_nat BASEADDR) :: 32 word)"
  obtain k where k: "b = k + 4"
    using dir by (metis WSIZE_def le_Suc_ex add.commute le_add2 le_trans)
  have sl: "slot + 8 \<le> k"
    using get_seg_listp_bounds(2)[of s "ucast (GET_SIZE s (HDRP b))"] dir
    by (simp add: slot_def WSIZE_def k)
  have hk: "HDRP b = k" by (simp add: HDRP_def WSIZE_def k)
  have f_slot: "GET8 s slot = f" by (simp add: f_def list_head_def slot_def)
  have f0: "f \<noteq> 0" using ne by (simp add: f_def)
  have sep': "h + 4 \<le> k \<or> k + 12 \<le> h"
    using sep unfolding hk h_def f_def by (auto simp add: k)
  have slh: "slot + 8 \<le> h"
    using get_seg_listp_bounds(2)[of s "ucast (GET_SIZE s (HDRP b))"] hd
    by (simp add: slot_def h_def f_def)
  have h0: "GET s h = 0" using hp by (simp add: GET_PREV_def h_def f_def)
  have rt: "n \<noteq> 0" "OFFSET_REAL n = h" "ucast n + of_nat BASEADDR = f"
    using offset_round_trip[of f] rng by (simp_all add: n_def h_def f_def)
  define s1 where "s1 = PUT h v (PUT8 slot (of_nat b) (PUT (k + 4 + 4) n (PUT (k + 4) 0 s)))"
  have add: "add_free_block b s = s1"
    unfolding add_free_block_def Let_def slot_def[symmetric] f_slot
    by (simp add: f0 s1_def SET_NEXT_def SET_PREV_def WSIZE_def k h_def n_def v_def)
  have d1: "k + 4 \<le> h \<or> h + 4 \<le> k" "k + 4 + 4 \<le> h \<or> h + 4 \<le> k + 4"
    "k + 8 + 4 \<le> h \<or> h + 4 \<le> k + 8" "k + 4 \<le> slot \<or> slot + 8 \<le> k"
    "k + 4 + 4 \<le> slot \<or> slot + 8 \<le> k + 4" "k + 8 + 4 \<le> slot \<or> slot + 8 \<le> k + 8"
    using sep' sl by linarith+
  have hdr: "GET s1 (HDRP b) = GET s (HDRP b)"
    using d1 by (simp add: s1_def hk GET_PUT_other GET_PUT8_other)
  have "seg_list_start s1 = seg_list_start s"
    by (simp add: s1_def PUT_fields PUT8_fields)
  then have slot1: "get_seg_listp s1 (ucast (GET_SIZE s1 (HDRP b))) = slot"
    by (simp add: get_seg_listp_def GET_SIZE_def hdr slot_def)
  have p1: "GET_PREV s1 b = 0"
    using d1 by (simp add: GET_PREV_def s1_def k GET_PUT_other GET_PUT8_other GET_PUT_same)
  have n1: "GET_NEXT s1 b = n"
    using d1 by (simp add: GET_NEXT_def WSIZE_def s1_def k GET_PUT_other GET_PUT8_other GET_PUT_same)
  have rem: "remove_free_block b s1 = PUT h 0 (PUT8 slot f s1)"
    unfolding remove_free_block_def Let_def slot1
    by (simp add: p1 n1 rt SET_PREV_def)
  have "mem (PUT h 0 (PUT8 slot f s1)) a =
          (if h \<le> a \<and> a < h + 4 then mem s a else mem (PUT8 slot f s1) a)"
    by (rule mem_PUT_restore) (rule h0)
  moreover have "mem (PUT8 slot f s1) a =
          (if slot \<le> a \<and> a < slot + 8 then mem s a else mem s1 a)"
    by (rule mem_PUT8_restore) (rule f_slot)
  moreover have "mem s1 a = mem s a"
    if "\<not> (slot \<le> a \<and> a < slot + 8)" "\<not> (h \<le> a \<and> a < h + 4)"
    using that out by (auto simp add: s1_def k mem_PUT_frame mem_PUT8_frame)
  ultimately show ?thesis by (simp add: add rem)
qed

text \<open>
  C10.  Let \<open>b\<close> be a block above the directory, and let the list of its size class be
  either empty or headed by a block that lies in the heap above the directory, has no
  predecessor, and whose link word does not overlap the header or the two link words of
  \<open>b\<close> (in particular \<open>b\<close> is not the head).  Then \<open>add_free_block b\<close> followed by
  \<open>remove_free_block b\<close> leaves every byte outside the two link words of \<open>b\<close> as it was:
  all 14 directory slots hold their former values, and so do the prev and next links of
  every other block.
\<close>

theorem add_remove_round_trip:
  assumes dir: "seg_list_start s + SEG_NUM * DSIZE + WSIZE \<le> b"
    and head: "list_head s b = 0 \<or>
       (BASEADDR < unat (list_head s b) \<and> unat (list_head s b) < BASEADDR + 2 ^ 32
        \<and> GET_PREV s (unat (list_head s b)) = 0
        \<and> seg_list_start s + SEG_NUM * DSIZE \<le> unat (list_head s b)
        \<and> (unat (list_head s b) + 4 \<le> HDRP b \<or> b + 8 \<le> unat (list_head s b)))"
  shows "(\<forall>a. a < b \<or> b + 8 \<le> a \<longrightarrow>
            mem (remove_free_block b (add_free_block b s)) a = mem s a)
    \<and> (\<forall>i<SEG_NUM. GET8 (remove_free_block b (add_free_block b s))
                       (seg_list_start (remove_free_block b (add_free_block b s)) + i * DSIZE)
                   = GET8 s (seg_list_start s + i * DSIZE))
    \<and> (\<forall>p. p + 8 \<le> b \<or> b + 8 \<le> p \<longrightarrow>
            GET_PREV (remove_free_block b (add_free_block b s)) p = GET_PREV s p
          \<and> GET_NEXT (remove_free_block b (add_free_block b s)) p = GET_NEXT s p)"
proof -
  define s' where "s' = remove_free_block b (add_free_block b s)"
  have bytes: "mem s' a = mem s a" if "a < b \<or> b + 8 \<le> a" for a
  proof (cases "list_head s b = 0")
    case True
    then show ?thesis unfolding s'_def using round_trip_empty[OF dir _ that] by simp
  next
    case False
    with head show ?thesis unfolding s'_def using round_trip_head[OF dir False _ _ _ _ _ that]
      by simp
  qed
  have st: "seg_list_start s' = seg_list_start s"
    by (simp add: s'_def field_simps)
  have slots: "GET8 s' (seg_list_start s' + i * DSIZE) = GET8 s (seg_list_start s + i * DSIZE)"
    if "i < SEG_NUM" for i
    unfolding st
  proof (rule GET8_frame)
    fix a assume "seg_list_start s + i * DSIZE \<le> a" "a < seg_list_start s + i * DSIZE + 8"
    then have "a < b" using that dir by (simp add: SEG_NUM_def DSIZE_def WSIZE_def)
    then show "mem s' a = mem s a" by (simp add: bytes)
  qed
  have links: "GET_PREV s' p = GET_PREV s p \<and> GET_NEXT s' p = GET_NEXT s p"
    if "p + 8 \<le> b \<or> b + 8 \<le> p" for p
  proof
    show "GET_PREV s' p = GET_PREV s p"
      unfolding GET_PREV_def by (rule GET_frame) (use that in \<open>auto simp add: bytes\<close>)
    show "GET_NEXT s' p = GET_NEXT s p"
      unfolding GET_NEXT_def WSIZE_def by (rule GET_frame) (use that in \<open>auto simp add: bytes\<close>)
  qed
  show ?thesis
    unfolding s'_def[symmetric] using bytes slots links by blast
qed

lemma remove_initial_block:
  "remove_free_block (BASEADDR + 128) (snd (mm_init fresh_heap))
     = PUT8 (BASEADDR + 40) 0 (snd (mm_init fresh_heap))"
proof -
  define t where "t = snd (mm_init fresh_heap)"
  note f = mm_init_facts(2-)[OF fresh_heap_room, folded t_def]
  have "GET_SIZE t (HDRP (BASEADDR + 128)) = 464"
    using f by (simp add: macro_defs BASEADDR_def)
  then have "get_seg_listp t (ucast (GET_SIZE t (HDRP (BASEADDR + 128)))) = BASEADDR + 40"
    using f(1) by (simp add: get_seg_listp_def seg_index_def DSIZE_def)
  moreover have "GET_PREV t (BASEADDR + 128) = 0" "GET_NEXT t (BASEADDR + 128) = 0"
    using f by (simp_all add: GET_PREV_def GET_NEXT_def WSIZE_def BASEADDR_def)
  ultimately show ?thesis
    unfolding t_def[symmetric] remove_free_block_def Let_def by simp
qed

theorem add_remove_round_trip_witness:
  "list_head (remove_free_block (BASEADDR + 128) (snd (mm_init fresh_heap))) (BASEADDR + 128) = 0
   \<and> GET8 (remove_free_block (BASEADDR + 128) (add_free_block (BASEADDR + 128)
             (remove_free_block (BASEADDR + 128) (snd (mm_init fresh_heap)))))
          (BASEADDR + 5 * DSIZE) = 0
   \<and> list_head (PUT (BASEADDR + 324) 264 (snd (mm_init fresh_heap))) (BASEADDR + 328)
        = of_nat (BASEADDR + 128)
   \<and> GET8 (remove_free_block (BASEADDR + 328) (add_free_block (BASEADDR + 328)
             (PUT (BASEADDR + 324) 264 (snd (mm_init fresh_heap)))))
          (BASEADDR + 5 * DSIZE) = of_nat (BASEADDR + 128)
   \<and> GET_PREV (remove_free_block (BASEADDR + 328) (add_free_block (BASEADDR + 328)
             (PUT (BASEADDR + 324) 264 (snd (mm_init fresh_heap)))))
          (BASEADDR + 128) = 0"
proof -
  define t where "t = snd (mm_init fresh_heap)"
  define sA where "sA = PUT8 (BASEADDR + 40) 0 t"
  define sB where "sB = PUT (BASEADDR + 324) 264 t"
  note f = mm_init_facts(2-)[OF fresh_heap_room, folded t_def]
  have stA: "seg_list_start sA = BASEADDR" and stB: "seg_list_start sB = BASEADDR"
    using f by (simp_all add: sA_def sB_def heap_simps)
  have zA: "GET_SIZE sA (HDRP (BASEADDR + 128)) = 464"
    using f by (simp add: sA_def macro_defs BASEADDR_def heap_simps)
  have zB: "GET_SIZE sB (HDRP (BASEADDR + 328)) = 264"
    by (simp add: sB_def macro_defs BASEADDR_def heap_simps)
  have hA: "list_head sA (BASEADDR + 128) = 0"
    unfolding list_head_def zA get_seg_listp_def stA
    by (simp add: seg_index_def DSIZE_def sA_def heap_simps)
  have hB: "list_head sB (BASEADDR + 328) = of_nat (BASEADDR + 128)"
    unfolding list_head_def zB get_seg_listp_def stB
    using f by (simp add: seg_index_def DSIZE_def sB_def heap_simps)
  have uB: "unat (of_nat (BASEADDR + 128) :: 64 word) = BASEADDR + 128"
    by (simp add: BASEADDR_def)
  have pB: "GET_PREV sB (BASEADDR + 128) = 0"
    using f by (simp add: GET_PREV_def sB_def heap_simps)
  have five: "(5::nat) < SEG_NUM" by (simp add: SEG_NUM_def)
  have slotA: "GET8 sA (BASEADDR + 5 * DSIZE) = 0"
    by (simp add: sA_def DSIZE_def heap_simps)
  have slotB: "GET8 sB (BASEADDR + 5 * DSIZE) = of_nat (BASEADDR + 128)"
    using f by (simp add: sB_def DSIZE_def heap_simps)
  have dA: "seg_list_start sA + SEG_NUM * DSIZE + WSIZE \<le> BASEADDR + 128"
    and dB: "seg_list_start sB + SEG_NUM * DSIZE + WSIZE \<le> BASEADDR + 328"
    by (simp_all add: stA stB SEG_NUM_def DSIZE_def WSIZE_def)
  have headB: "list_head sB (BASEADDR + 328) = 0 \<or>
       (BASEADDR < unat (list_head sB (BASEADDR + 328))
        \<and> unat (list_head sB (BASEADDR + 328)) < BASEADDR + 2 ^ 32
        \<and> GET_PREV sB (unat (list_head sB (BASEADDR + 328))) = 0
        \<and> seg_list_start sB + SEG_NUM * DSIZE \<le> unat (list_head sB (BASEADDR + 328))
        \<and> (unat (list_head sB (BASEADDR + 328)) + 4 \<le> HDRP (BASEADDR + 328)
           \<or> BASEADDR + 328 + 8 \<le> unat (list_head sB (BASEADDR + 328))))"
    unfolding hB uB by (simp add: pB stB SEG_NUM_def DSIZE_def HDRP_def WSIZE_def)
  note rA = add_remove_round_trip[OF dA disjI1[OF hA]]
  note rB = add_remove_round_trip[OF dB headB]
  have A: "GET8 (remove_free_block (BASEADDR + 128) (add_free_block (BASEADDR + 128) sA))
             (BASEADDR + 5 * DSIZE) = 0"
    using rA[THEN conjunct2, THEN conjunct1, rule_format, OF five]
    by (simp add: stA slotA field_simps)
  have B1: "GET8 (remove_free_block (BASEADDR + 328) (add_free_block (BASEADDR + 328) sB))
             (BASEADDR + 5 * DSIZE) = of_nat (BASEADDR + 128)"
    using rB[THEN conjunct2, THEN conjunct1, rule_format, OF five]
    by (simp add: stB slotB field_simps)
  have B2: "GET_PREV (remove_free_block (BASEADDR + 328) (add_free_block (BASEADDR + 328) sB))
             (BASEADDR + 128) = 0"
    using rB[THEN conjunct2, THEN conjunct2, THEN spec, of "BASEADDR + 128"]
    by (simp add: pB)
  have ri: "remove_free_block (BASEADDR + 128) t = sA"
    using remove_initial_block by (simp add: t_def sA_def)
  show ?thesis
    unfolding t_def[symmetric] unfolding ri sB_def[symmetric]
    using hA hB A B1 B2 by simp
qed

section \<open>The block created by a heap extension and its insertion\<close>


lemma add_free_block_effect:
  assumes dir: "seg_list_start s + SEG_NUM * DSIZE + WSIZE \<le> b"
    and head: "list_head s b = 0 \<or>
        (seg_list_start s + SEG_NUM * DSIZE \<le> unat (list_head s b)
         \<and> (unat (list_head s b) + 4 \<le> HDRP b \<or> b + 8 \<le> unat (list_head s b)))"
  shows "list_head (add_free_block b s) b = of_nat b"
    and "GET_PREV (add_free_block b s) b = 0"
    and "GET_NEXT (add_free_block b s) b
           = (if list_head s b = 0 then 0 else REAL_OFFSET (list_head s b))"
    and "list_head s b \<noteq> 0 \<Longrightarrow>
           GET_PREV (add_free_block b s) (unat (list_head s b)) = REAL_OFFSET (of_nat b)"
    and "\<And>q. seg_list_start s + SEG_NUM * DSIZE \<le> q \<Longrightarrow> q + 4 \<le> b \<or> b + 8 \<le> q \<Longrightarrow>
           list_head s b = 0 \<or> q + 4 \<le> unat (list_head s b) \<or> unat (list_head s b) + 4 \<le> q \<Longrightarrow>
           GET (add_free_block b s) q = GET s q"
proof -
  define slot where "slot = get_seg_listp s (ucast (GET_SIZE s (HDRP b)))"
  define f where "f = list_head s b"
  define h where "h = unat f"
  obtain k where k: "b = k + 4"
    using dir by (metis WSIZE_def le_Suc_ex add.commute le_add2 le_trans)
  have sl: "slot + 8 \<le> k"
    using get_seg_listp_bounds(2)[of s "ucast (GET_SIZE s (HDRP b))"] dir
    by (simp add: slot_def WSIZE_def k)
  have sl2: "slot + 8 \<le> seg_list_start s + SEG_NUM * DSIZE"
    using get_seg_listp_bounds(2)[of s "ucast (GET_SIZE s (HDRP b))"] by (simp add: slot_def)
  have hk: "HDRP b = k" by (simp add: HDRP_def WSIZE_def k)
  have f_slot: "GET8 s slot = f" by (simp add: f_def list_head_def slot_def)
  define s1 where "s1 = add_free_block b s"
  have st: "seg_list_start s1 = seg_list_start s"
    by (simp add: s1_def field_simps)
  have lh: "list_head s1 b = GET8 s1 slot" if "GET s1 k = GET s k"
    using that by (simp add: list_head_def get_seg_listp_def GET_SIZE_def hk st slot_def)
  have main: "list_head s1 b = of_nat b \<and> GET_PREV s1 b = 0
      \<and> GET_NEXT s1 b = (if f = 0 then 0 else REAL_OFFSET f)
      \<and> (f \<noteq> 0 \<longrightarrow> GET_PREV s1 h = REAL_OFFSET (of_nat b))
      \<and> (\<forall>q. seg_list_start s + SEG_NUM * DSIZE \<le> q \<longrightarrow> q + 4 \<le> b \<or> b + 8 \<le> q \<longrightarrow>
              f = 0 \<or> q + 4 \<le> h \<or> h + 4 \<le> q \<longrightarrow> GET s1 q = GET s q)"
  proof (cases "f = 0")
    case True
    have e: "s1 = PUT (k + 4 + 4) 0 (PUT (k + 4) 0 (PUT8 slot (of_nat b) s))"
      unfolding s1_def add_free_block_def Let_def slot_def[symmetric] f_slot
      by (simp add: True SET_NEXT_def SET_PREV_def WSIZE_def k)
    have hdr: "GET s1 k = GET s k"
      using sl by (simp add: e GET_PUT_other GET_PUT8_other)
    have a: "GET8 s1 slot = of_nat b"
      using sl by (simp add: e GET8_PUT_other GET8_PUT8_same)
    have p: "GET_PREV s1 b = 0"
      by (simp add: GET_PREV_def e k GET_PUT_other GET_PUT_same)
    have n: "GET_NEXT s1 b = 0"
      by (simp add: GET_NEXT_def WSIZE_def e k GET_PUT_same)
    have fr: "GET s1 q = GET s q"
      if "seg_list_start s + SEG_NUM * DSIZE \<le> q" "q + 4 \<le> b \<or> b + 8 \<le> q" for q
    proof -
      have "q + 4 \<le> k + 4 + 4 \<or> k + 4 + 4 + 4 \<le> q" "q + 4 \<le> k + 4 \<or> k + 4 + 4 \<le> q"
        "q + 4 \<le> slot \<or> slot + 8 \<le> q"
        using that sl2 by (auto simp add: k)
      then show ?thesis by (simp add: e GET_PUT_other GET_PUT8_other)
    qed
    show ?thesis using True lh[OF hdr] a p n fr by simp
  next
    case False
    define n where "n = (ucast (f - of_nat BASEADDR) :: 32 word)"
    define v where "v = (ucast ((of_nat b :: 64 word) - of_nat BASEADDR) :: 32 word)"
    from head False have hd: "seg_list_start s + SEG_NUM * DSIZE \<le> h"
      and sep: "h + 4 \<le> HDRP b \<or> b + 8 \<le> h"
      by (simp_all add: f_def h_def)
    have sep': "h + 4 \<le> k \<or> k + 12 \<le> h"
      using sep unfolding hk by (auto simp add: k)
    have slh: "slot + 8 \<le> h" using sl2 hd by simp
    have e: "s1 = PUT h v (PUT8 slot (of_nat b) (PUT (k + 4 + 4) n (PUT (k + 4) 0 s)))"
      unfolding s1_def add_free_block_def Let_def slot_def[symmetric] f_slot
      by (simp add: False SET_NEXT_def SET_PREV_def WSIZE_def k h_def n_def v_def)
    have d1: "k + 4 \<le> h \<or> h + 4 \<le> k" "k + 4 + 4 \<le> h \<or> h + 4 \<le> k + 4"
      "k + 4 + 4 + 4 \<le> h \<or> h + 4 \<le> k + 4 + 4" "k + 4 \<le> slot \<or> slot + 8 \<le> k"
      "k + 4 + 4 \<le> slot \<or> slot + 8 \<le> k + 4" "k + 4 + 4 + 4 \<le> slot \<or> slot + 8 \<le> k + 4 + 4"
      "slot + 8 \<le> h \<or> h + 4 \<le> slot"
      using sep' sl slh by linarith+
    have hdr: "GET s1 k = GET s k"
      using d1 by (simp add: e GET_PUT_other GET_PUT8_other)
    have a: "GET8 s1 slot = of_nat b"
      using d1 by (simp add: e GET8_PUT_other GET8_PUT8_same)
    have p: "GET_PREV s1 b = 0"
      using d1 by (simp add: GET_PREV_def e k GET_PUT_other GET_PUT8_other GET_PUT_same)
    have nx: "GET_NEXT s1 b = n"
      using d1 by (simp add: GET_NEXT_def WSIZE_def e k GET_PUT_other GET_PUT8_other GET_PUT_same)
    have pv: "GET_PREV s1 h = v"
      by (simp add: GET_PREV_def e GET_PUT_same)
    have fr: "GET s1 q = GET s q"
      if "seg_list_start s + SEG_NUM * DSIZE \<le> q" "q + 4 \<le> b \<or> b + 8 \<le> q"
        "q + 4 \<le> h \<or> h + 4 \<le> q" for q
    proof -
      have "q + 4 \<le> k + 4 + 4 \<or> k + 4 + 4 + 4 \<le> q" "q + 4 \<le> k + 4 \<or> k + 4 + 4 \<le> q"
        "q + 4 \<le> slot \<or> slot + 8 \<le> q" "q + 4 \<le> h \<or> h + 4 \<le> q"
        using that sl2 by (auto simp add: k)
      then show ?thesis by (simp add: e GET_PUT_other GET_PUT8_other)
    qed
    show ?thesis
      using False lh[OF hdr] a p nx pv fr by (simp add: REAL_OFFSET_def n_def v_def)
  qed
  show "list_head (add_free_block b s) b = of_nat b"
    and "GET_PREV (add_free_block b s) b = 0"
    and "GET_NEXT (add_free_block b s) b
           = (if list_head s b = 0 then 0 else REAL_OFFSET (list_head s b))"
    and "list_head s b \<noteq> 0 \<Longrightarrow>
           GET_PREV (add_free_block b s) (unat (list_head s b)) = REAL_OFFSET (of_nat b)"
    and "\<And>q. seg_list_start s + SEG_NUM * DSIZE \<le> q \<Longrightarrow> q + 4 \<le> b \<or> b + 8 \<le> q \<Longrightarrow>
           list_head s b = 0 \<or> q + 4 \<le> unat (list_head s b) \<or> unat (list_head s b) + 4 \<le> q \<Longrightarrow>
           GET (add_free_block b s) q = GET s q"
    using main unfolding s1_def f_def h_def by blast+
qed



lemma ucast_ucast_size:
  fixes sz :: "64 word"
  assumes "unat sz < 2 ^ 32"
  shows "(ucast (ucast sz :: 32 word) :: 64 word) = sz"
proof -
  have "unat (ucast (ucast sz :: 32 word) :: 64 word) = unat sz"
    using assms by (simp add: unsigned_ucast_eq unsigned_take_bit_eq take_bit_nat_eq_self)
  then show ?thesis by (simp add: word_unat_eq_iff)
qed


lemma adjust_size_aligned: "unat (adjust_size n) mod 8 = 0"
proof (cases "n \<le> of_nat DSIZE")
  case True
  then show ?thesis by (simp add: adjust_size_def DSIZE_def)
next
  case False
  define q where "q = (n + of_nat WSIZE + (of_nat DSIZE - 1)) div of_nat DSIZE"
  have "adjust_size n = 8 * q"
    using False by (simp add: adjust_size_def q_def DSIZE_def)
  then have "unat (adjust_size n) = (8 * unat q) mod 2 ^ 64"
    by (simp add: unat_word_ariths)
  moreover have "(8 * unat q) mod 2 ^ 64 mod 8 = (8 * unat q) mod 8"
    by (rule mod_mod_cancel) simp
  ultimately show ?thesis by simp
qed

lemma extend_heap_arguments:
  "unat (CHUNKSIZE div of_nat WSIZE) = 116"
  "116 \<le> unat ((if adjust_size n > CHUNKSIZE then adjust_size n else CHUNKSIZE) div of_nat WSIZE)"
  "unat ((if adjust_size n > CHUNKSIZE then adjust_size n else CHUNKSIZE) div of_nat WSIZE)
     < 2 ^ 62 - 1"
proof -
  define a where "a = unat (adjust_size n)"
  have a8: "a mod 8 = 0" unfolding a_def by (rule adjust_size_aligned)
  have "a < 18446744073709551616"
    unfolding a_def using unsigned_less[of "adjust_size n"] by simp
  with a8 have "a div 4 < 4611686018427387903" by presburger
  then have hi: "a div 4 < 2 ^ 62 - 1" by simp
  show "unat (CHUNKSIZE div of_nat WSIZE) = 116"
    by (simp add: CHUNKSIZE_def WSIZE_def unat_div)
  have lo: "464 < a \<Longrightarrow> 116 \<le> a div 4" by presburger
  show "116 \<le> unat ((if adjust_size n > CHUNKSIZE then adjust_size n else CHUNKSIZE)
                       div of_nat WSIZE)"
    using lo by (simp add: CHUNKSIZE_def WSIZE_def unat_div word_less_nat_alt a_def[symmetric])
  show "unat ((if adjust_size n > CHUNKSIZE then adjust_size n else CHUNKSIZE) div of_nat WSIZE)
          < 2 ^ 62 - 1"
    using hi by (simp add: CHUNKSIZE_def WSIZE_def unat_div word_less_nat_alt a_def[symmetric])
qed



section \<open>Placement\<close>

lemma remove_free_block_effect:
  assumes pl: "GET_PREV s b = 0 \<or> seg_list_start s + SEG_NUM * DSIZE \<le> OFFSET_REAL (GET_PREV s b)"
    and nl: "GET_NEXT s b = 0 \<or> seg_list_start s + SEG_NUM * DSIZE \<le> OFFSET_REAL (GET_NEXT s b)"
  shows "\<And>q. seg_list_start s + SEG_NUM * DSIZE \<le> q \<Longrightarrow>
           GET_PREV s b = 0 \<or> q \<le> OFFSET_REAL (GET_PREV s b)
             \<or> OFFSET_REAL (GET_PREV s b) + 8 \<le> q \<Longrightarrow>
           GET_NEXT s b = 0 \<or> q + 4 \<le> OFFSET_REAL (GET_NEXT s b)
             \<or> OFFSET_REAL (GET_NEXT s b) + 4 \<le> q \<Longrightarrow>
           GET (remove_free_block b s) q = GET s q"
    and "\<And>i. i < SEG_NUM \<Longrightarrow>
           GET8 (remove_free_block b s) (seg_list_start s + i * DSIZE) =
             (if i = seg_index (ucast (GET_SIZE s (HDRP b))) \<and> GET_PREV s b = 0
              then (if GET_NEXT s b = 0 then 0 else ucast (GET_NEXT s b) + of_nat BASEADDR)
              else GET8 s (seg_list_start s + i * DSIZE))"
proof -
  define j where "j = seg_index (ucast (GET_SIZE s (HDRP b)))"
  define st where "st = seg_list_start s"
  define P where "P = OFFSET_REAL (GET_PREV s b)"
  define N where "N = OFFSET_REAL (GET_NEXT s b)"
  have j: "j < 14" unfolding j_def by (rule seg_index_less)
  have slot: "get_seg_listp s (ucast (GET_SIZE s (HDRP b))) = st + j * 8"
    by (simp add: get_seg_listp_def j_def st_def DSIZE_def)
  have pl': "GET_PREV s b = 0 \<or> st + 112 \<le> P"
    using pl by (simp add: st_def P_def SEG_NUM_def DSIZE_def)
  have nl': "GET_NEXT s b = 0 \<or> st + 112 \<le> N"
    using nl by (simp add: st_def N_def SEG_NUM_def DSIZE_def)
  have e: "remove_free_block b s =
      (if GET_PREV s b = 0 then
         (if GET_NEXT s b = 0 then PUT8 (st + j * 8) 0 s
          else PUT N 0 (PUT8 (st + j * 8) (ucast (GET_NEXT s b) + of_nat BASEADDR) s))
       else
         (if GET_NEXT s b = 0 then PUT (P + 4) 0 s
          else PUT (P + 4) (GET_NEXT s b) (PUT N (GET_PREV s b) s)))"
    unfolding remove_free_block_def Let_def slot
    by (simp add: SET_PREV_def SET_NEXT_def WSIZE_def P_def N_def)
  have w: "GET (remove_free_block b s) q = GET s q"
    if "st + 112 \<le> q" "GET_PREV s b = 0 \<or> q \<le> P \<or> P + 8 \<le> q"
      "GET_NEXT s b = 0 \<or> q + 4 \<le> N \<or> N + 4 \<le> q" for q
  proof -
    have a: "q + 4 \<le> st + j * 8 \<or> st + j * 8 + 8 \<le> q" using that(1) j by simp
    have b: "GET_PREV s b \<noteq> 0 \<Longrightarrow> q + 4 \<le> P + 4 \<or> P + 4 + 4 \<le> q"
      using that(2) by auto
    have c: "GET_NEXT s b \<noteq> 0 \<Longrightarrow> q + 4 \<le> N \<or> N + 4 \<le> q"
      using that(3) by auto
    show ?thesis
    proof (cases "GET_PREV s b = 0")
      case p0: True
      show ?thesis
      proof (cases "GET_NEXT s b = 0")
        case True
        then show ?thesis unfolding e using p0 a by (simp add: GET_PUT8_other)
      next
        case False
        from c[OF False] show ?thesis
          unfolding e using p0 False a by (simp add: GET_PUT_other GET_PUT8_other)
      qed
    next
      case p1: False
      show ?thesis
      proof (cases "GET_NEXT s b = 0")
        case True
        from b[OF p1] show ?thesis unfolding e using p1 True by (simp add: GET_PUT_other)
      next
        case False
        from b[OF p1] c[OF False] show ?thesis
          unfolding e using p1 False by (simp add: GET_PUT_other)
      qed
    qed
  qed
  have sl: "GET8 (remove_free_block b s) (st + i * 8) =
             (if i = j \<and> GET_PREV s b = 0
              then (if GET_NEXT s b = 0 then 0 else ucast (GET_NEXT s b) + of_nat BASEADDR)
              else GET8 s (st + i * 8))" if "i < 14" for i
  proof -
    have a: "GET_PREV s b \<noteq> 0 \<Longrightarrow> st + i * 8 + 8 \<le> P + 4 \<or> P + 4 + 4 \<le> st + i * 8"
      using pl' that by auto
    have c: "GET_NEXT s b \<noteq> 0 \<Longrightarrow> st + i * 8 + 8 \<le> N \<or> N + 4 \<le> st + i * 8"
      using nl' that by auto
    have d: "i \<noteq> j \<Longrightarrow> st + i * 8 + 8 \<le> st + j * 8 \<or> st + j * 8 + 8 \<le> st + i * 8"
      by auto
    show ?thesis
    proof (cases "GET_PREV s b = 0")
      case p0: True
      show ?thesis
      proof (cases "GET_NEXT s b = 0")
        case True
        then show ?thesis
          unfolding e using p0 d by (cases "i = j") (simp_all add: GET8_PUT8_other GET8_PUT8_same)
      next
        case False
        from c[OF False] show ?thesis
          unfolding e using p0 False d
          by (cases "i = j") (simp_all add: GET8_PUT_other GET8_PUT8_other GET8_PUT8_same)
      qed
    next
      case p1: False
      show ?thesis
      proof (cases "GET_NEXT s b = 0")
        case True
        from a[OF p1] show ?thesis
          unfolding e using p1 True by (simp add: GET8_PUT_other)
      next
        case False
        from a[OF p1] c[OF False] show ?thesis
          unfolding e using p1 False by (simp add: GET8_PUT_other)
      qed
    qed
  qed
  show "\<And>q. seg_list_start s + SEG_NUM * DSIZE \<le> q \<Longrightarrow>
           GET_PREV s b = 0 \<or> q \<le> OFFSET_REAL (GET_PREV s b)
             \<or> OFFSET_REAL (GET_PREV s b) + 8 \<le> q \<Longrightarrow>
           GET_NEXT s b = 0 \<or> q + 4 \<le> OFFSET_REAL (GET_NEXT s b)
             \<or> OFFSET_REAL (GET_NEXT s b) + 4 \<le> q \<Longrightarrow>
           GET (remove_free_block b s) q = GET s q"
    using w by (simp add: st_def P_def N_def SEG_NUM_def DSIZE_def)
  show "\<And>i. i < SEG_NUM \<Longrightarrow>
           GET8 (remove_free_block b s) (seg_list_start s + i * DSIZE) =
             (if i = seg_index (ucast (GET_SIZE s (HDRP b))) \<and> GET_PREV s b = 0
              then (if GET_NEXT s b = 0 then 0 else ucast (GET_NEXT s b) + of_nat BASEADDR)
              else GET8 s (seg_list_start s + i * DSIZE))"
    using sl by (simp add: st_def j_def SEG_NUM_def DSIZE_def)
qed


lemma unat_of_aligned:
  fixes w :: "'a::len word"
  assumes "w AND 7 = 0" shows "unat w mod 8 = 0"
proof -
  have e: "(7 :: 'a word) = mask 3" by (simp add: mask_eq_exp_minus_1)
  have "take_bit 3 w = 0" using assms unfolding e by (simp only: take_bit_eq_mask)
  then have "unat (take_bit 3 w) = 0" by simp
  moreover have "unat (take_bit 3 w) = take_bit 3 (unat w)"
    by (rule unsigned_take_bit_eq)
  moreover have "take_bit 3 (unat w) = unat w mod 2 ^ 3"
    by (rule take_bit_eq_mod)
  ultimately show ?thesis by simp
qed

lemma alloc_flags:
  fixes w x :: "'a::len word"
  assumes "w AND 7 = 0"
  shows "(w OR (x AND 2 OR 1)) AND NOT 7 = w"
    and "(w OR (x AND 2 OR 1)) AND 1 = 1"
    and "(w OR (x AND 2 OR 1)) AND 2 = x AND 2"
proof -
  show "(w OR (x AND 2 OR 1)) AND NOT 7 = w"
    by (rule size_of_pack[OF assms flag_small(2)])
  have "(x AND 2 OR 1) AND 1 = (1 :: 'a word)"
    by (rule bit_word_eqI) (auto simp add: flag_bits)
  then show "(w OR (x AND 2 OR 1)) AND 1 = 1"
    by (simp add: flags_of_pack(1)[OF assms])
  have "(x AND 2 OR 1) AND 2 = x AND 2"
    by (rule bit_word_eqI) (auto simp add: flag_bits)
  then show "(w OR (x AND 2 OR 1)) AND 2 = x AND 2"
    by (simp add: flags_of_pack(2)[OF assms])
qed

lemma free_flags:
  fixes w :: "'a::len word"
  assumes "w AND 7 = 0"
  shows "(w OR 2) AND NOT 7 = w" "(w OR 2) AND 1 = 0" "(w OR 2) AND 2 = 2"
    "w AND NOT 7 = w" "w AND 1 = 0"
proof -
  show "(w OR 2) AND NOT 7 = w" by (rule size_of_pack[OF assms flag_small(4)])
  show "(w OR 2) AND 1 = 0" "(w OR 2) AND 2 = 2"
    by (simp_all add: flags_of_pack[OF assms])
  show "w AND NOT 7 = w" using size_of_pack[OF assms flag_small(5)] by simp
  show "w AND 1 = 0" using flags_of_pack(1)[OF assms, of 0] by simp
qed

lemma unat_offset:
  "unat (ucast (n :: 32 word) + (of_nat BASEADDR :: 64 word)) = OFFSET_REAL n"
proof -
  have a: "unat (ucast n :: 64 word) = unat n"
    by (simp add: unsigned_ucast_eq unsigned_take_bit_eq take_bit_nat_eq_self
        order_less_trans[OF unsigned_less])
  have b: "unat n < 2 ^ 32" using unsigned_less[of n] by simp
  show ?thesis
    using b by (simp add: unat_word_ariths a OFFSET_REAL_def BASEADDR_def)
qed


text \<open>
  C8.  Let \<open>ptr\<close> be a block above the directory whose header holds size \<open>C\<close>, and \<open>A\<close> an
  adjusted request: a positive multiple of 8 with \<open>A \<le> C\<close>.  Let the list neighbours of
  \<open>ptr\<close> (its prev and next links, where not 0) be blocks apart from \<open>ptr\<close>, and let the head
  of the list of class \<open>C - A\<close> be 0, \<open>ptr\<close> itself, or a block apart from \<open>ptr\<close>.  Then \<open>place\<close>
  splits exactly when \<open>C - A \<ge> 16\<close>.

  When it splits: the header of \<open>ptr\<close> holds size \<open>A\<close>, allocated, with the prev-alloc bit it
  had; the next block is \<open>ptr + A\<close>, a free block whose header holds size \<open>C - A\<close>, not
  allocated, prev-alloc bit set, and whose footer (the last word of the original block)
  holds size \<open>C - A\<close>, not allocated; this block is the head of the list that the class
  table gives for \<open>C - A\<close>, it has no predecessor, and its successor is the head that list
  had once \<open>ptr\<close> was removed; the header of the block after the original block is as it
  was.

  When it does not split: the header of \<open>ptr\<close> holds size \<open>C\<close>, allocated, with the prev-alloc
  bit it had, and the header of the successor block \<open>ptr + C\<close> is as it was with the
  prev-alloc bit set.
\<close>

theorem place_block:
  fixes A :: "64 word"
  assumes dir: "seg_list_start s + SEG_NUM * DSIZE + WSIZE \<le> ptr"
    and C: "unat (GET_SIZE s (HDRP ptr)) = C"
    and A: "unat A mod 8 = 0" "0 < unat A" "unat A \<le> C"
    and pl: "GET_PREV s ptr = 0 \<or> apart s ptr C (OFFSET_REAL (GET_PREV s ptr))"
    and nl: "GET_NEXT s ptr = 0 \<or> apart s ptr C (OFFSET_REAL (GET_NEXT s ptr))"
    and hd: "GET8 s (seg_list_start s + seg_index_nat (C - unat A) * DSIZE) = 0
           \<or> unat (GET8 s (seg_list_start s + seg_index_nat (C - unat A) * DSIZE)) = ptr
           \<or> apart s ptr C (unat (GET8 s (seg_list_start s + seg_index_nat (C - unat A) * DSIZE)))"
  shows "if 16 \<le> C - unat A then
           unat (GET_SIZE (place ptr A s) (HDRP ptr)) = unat A
         \<and> GET_ALLOC (place ptr A s) (HDRP ptr) = 1
         \<and> GET_PREV_ALLOC (place ptr A s) ptr = GET_PREV_ALLOC s ptr
         \<and> NEXT_BLKP (place ptr A s) ptr = ptr + unat A
         \<and> unat (GET_SIZE (place ptr A s) (HDRP (ptr + unat A))) = C - unat A
         \<and> GET_ALLOC (place ptr A s) (HDRP (ptr + unat A)) = 0
         \<and> GET_PREV_ALLOC (place ptr A s) (ptr + unat A) = 2
         \<and> FTRP (place ptr A s) (ptr + unat A) = ptr + C - DSIZE
         \<and> unat (GET_SIZE (place ptr A s) (ptr + C - DSIZE)) = C - unat A
         \<and> GET_ALLOC (place ptr A s) (ptr + C - DSIZE) = 0
         \<and> GET8 (place ptr A s) (seg_list_start (place ptr A s)
                                   + seg_index_nat (C - unat A) * DSIZE) = of_nat (ptr + unat A)
         \<and> GET_PREV (place ptr A s) (ptr + unat A) = 0
         \<and> GET_NEXT (place ptr A s) (ptr + unat A) =
             (if GET8 (remove_free_block ptr s)
                   (seg_list_start s + seg_index_nat (C - unat A) * DSIZE) = 0 then 0
              else REAL_OFFSET (GET8 (remove_free_block ptr s)
                   (seg_list_start s + seg_index_nat (C - unat A) * DSIZE)))
         \<and> GET (place ptr A s) (HDRP (ptr + C)) = GET s (HDRP (ptr + C))
         else
           unat (GET_SIZE (place ptr A s) (HDRP ptr)) = C
         \<and> GET_ALLOC (place ptr A s) (HDRP ptr) = 1
         \<and> GET_PREV_ALLOC (place ptr A s) ptr = GET_PREV_ALLOC s ptr
         \<and> NEXT_BLKP (place ptr A s) ptr = ptr + C
         \<and> GET (place ptr A s) (HDRP (ptr + C)) = GET s (HDRP (ptr + C)) OR 2"
proof -
  define st where "st = seg_list_start s"
  define a where "a = unat A"
  obtain k where k: "ptr = k + 4"
    using dir by (metis WSIZE_def le_Suc_ex add.commute le_add2 le_trans)
  have kd: "st + 112 \<le> k"
    using dir by (simp add: st_def k SEG_NUM_def DSIZE_def WSIZE_def)
  have hk: "HDRP ptr = k" by (simp add: HDRP_def WSIZE_def k)
  have hk': "ptr - 4 = k" by (simp add: k)
  define c32 where "c32 = GET_SIZE s k"
  define csize where "csize = (ucast c32 :: 64 word)"
  have uc32: "unat c32 = C" using C by (simp add: c32_def hk)
  have "unat c32 < 2 ^ 32" using unsigned_less[of c32] by simp
  then have C32: "C < 2 ^ 32" using uc32 by simp
  have ucs: "unat csize = C"
    unfolding csize_def using uc32 C32
    by (simp add: unsigned_ucast_eq take_bit_nat_eq_self)
  have c32al: "c32 AND 7 = 0" unfolding c32_def by (rule GET_SIZE_aligned)
  have C8: "C mod 8 = 0" using unat_of_aligned[OF c32al] uc32 by simp
  have Aal: "A AND 7 = 0" by (rule aligned_of_unat[OF A(1)])
  have a8: "8 \<le> a" "a mod 8 = 0" "a \<le> C" using A by (simp_all add: a_def) presburger
  have a32: "unat (ucast A :: 32 word) = a"
    using unat_ucast_size[of A] A(3) C32 by (simp add: a_def)
  have a32al: "(ucast A :: 32 word) AND 7 = 0" by (rule ucast_aligned[OF Aal])
  define d where "d = csize - A"
  have Ale: "A \<le> csize" using A(3) by (simp add: word_le_nat_alt ucs)
  have ud: "unat d = C - a"
    unfolding d_def using Ale by (simp add: unat_sub ucs a_def)
  have dal: "d AND 7 = 0"
  proof (rule aligned_of_unat)
    show "unat d mod 8 = 0" unfolding ud using C8 a8 by presburger
  qed
  have d32: "unat (ucast d :: 32 word) = C - a"
    using unat_ucast_size[of d] C32 ud by simp
  have d32al: "(ucast d :: 32 word) AND 7 = 0" by (rule ucast_aligned[OF dal])
  have dd: "(ucast (ucast d :: 32 word) :: 64 word) = d"
    by (rule ucast_ucast_size) (use C32 ud in simp)
  have cc: "(ucast csize :: 32 word) = c32"
  proof -
    have "unat (ucast csize :: 32 word) = unat c32"
      using unat_ucast_size[of csize] C32 ucs uc32 by simp
    then show ?thesis by (simp add: word_unat_eq_iff)
  qed
  define r where "r = remove_free_block ptr s"
  have pl': "GET_PREV s ptr = 0 \<or> st + 112 \<le> OFFSET_REAL (GET_PREV s ptr) \<and>
      (OFFSET_REAL (GET_PREV s ptr) + 8 \<le> k \<or> k + 4 + C \<le> OFFSET_REAL (GET_PREV s ptr))"
    using pl by (auto simp add: apart_def st_def HDRP_def WSIZE_def k SEG_NUM_def DSIZE_def)
  have nl': "GET_NEXT s ptr = 0 \<or> st + 112 \<le> OFFSET_REAL (GET_NEXT s ptr) \<and>
      (OFFSET_REAL (GET_NEXT s ptr) + 8 \<le> k \<or> k + 4 + C \<le> OFFSET_REAL (GET_NEXT s ptr))"
    using nl by (auto simp add: apart_def st_def HDRP_def WSIZE_def k SEG_NUM_def DSIZE_def)
  have pl0: "GET_PREV s ptr = 0 \<or> seg_list_start s + SEG_NUM * DSIZE \<le> OFFSET_REAL (GET_PREV s ptr)"
    and nl0: "GET_NEXT s ptr = 0 \<or> seg_list_start s + SEG_NUM * DSIZE \<le> OFFSET_REAL (GET_NEXT s ptr)"
    using pl nl by (auto simp add: apart_def)
  note eff = remove_free_block_effect[OF pl0 nl0, folded r_def]
  have rw: "GET r q = GET s q" if "k \<le> q" "q \<le> k + C" for q
  proof (rule eff(1))
    show "seg_list_start s + SEG_NUM * DSIZE \<le> q"
      using kd that by (simp add: st_def SEG_NUM_def DSIZE_def)
    show "GET_PREV s ptr = 0 \<or> q \<le> OFFSET_REAL (GET_PREV s ptr)
            \<or> OFFSET_REAL (GET_PREV s ptr) + 8 \<le> q"
      using pl' that by auto
    show "GET_NEXT s ptr = 0 \<or> q + 4 \<le> OFFSET_REAL (GET_NEXT s ptr)
            \<or> OFFSET_REAL (GET_NEXT s ptr) + 4 \<le> q"
      using nl' that by auto
  qed
  have str: "seg_list_start r = st" by (simp add: r_def st_def field_simps)
  define pa where "pa = GET s k AND 2"
  have pre: "(ucast (GET_PREV_ALLOC s ptr) :: 64 word) OR 1 = ucast (pa OR 1)"
    by (simp add: GET_PREV_ALLOC_def hk pa_def unsigned_or_eq)
  have szs: "(ucast (GET_SIZE s (HDRP ptr)) :: 64 word) = csize"
    by (simp add: csize_def c32_def hk)
  show ?thesis
  proof (cases "16 \<le> C - a")
    case True
    have ge: "2 * of_nat DSIZE \<le> csize - A"
      using True ud by (simp add: d_def[symmetric] DSIZE_def word_le_nat_alt)
    define r1 where "r1 = PUT k (ucast A OR (pa OR 1)) r"
    define r2 where "r2 = PUT (k + a) (ucast d OR 2) r1"
    define r3 where "r3 = PUT (k + C - 4) (ucast d) r2"
    define new where "new = k + a + 4"
    have sep: "k + 4 \<le> k + a" "k + a + 4 \<le> k + C - 4" "k + 4 \<le> k + C - 4"
      "k + C - 4 + 4 \<le> k + C" "k + a + 4 \<le> k + C" "k + 4 \<le> k + C" "4 \<le> C"
      using True a8 by linarith+
    have s1: "GET_SIZE r1 k = ucast A"
      unfolding GET_SIZE_def r1_def GET_PUT_same pa_def by (rule alloc_flags(1)[OF a32al])
    have n1: "NEXT_BLKP r1 ptr = new"
      by (simp add: NEXT_BLKP_def WSIZE_def k s1 a32 new_def)
    have hn: "HDRP new = k + a" by (simp add: HDRP_def WSIZE_def new_def)
    have s2: "GET_SIZE r2 (k + a) = ucast d"
      unfolding GET_SIZE_def r2_def GET_PUT_same by (rule free_flags(1)[OF d32al])
    have f2: "FTRP r2 new = k + C - 4"
      unfolding FTRP_def hn s2 d32 using True a8 by (simp add: DSIZE_def new_def)
    have pe: "place ptr A s = add_free_block new r3"
      unfolding place_def Let_def szs r_def[symmetric] using ge
      by (simp add: pre hk ucast_PACK ucast_PACK_numeral r1_def[symmetric] n1 hn d_def[symmetric]
          r2_def[symmetric] f2 r3_def[symmetric])
    have g3: "GET r3 k = ucast A OR (pa OR 1)" "GET r3 (k + a) = ucast d OR 2"
      "GET r3 (k + C - 4) = ucast d" "GET r3 (k + C) = GET s (k + C)"
      using sep rw[of "k + C"]
      by (simp_all add: r3_def r2_def r1_def GET_PUT_other GET_PUT_same)
    have st3: "seg_list_start r3 = st"
      by (simp add: r3_def r2_def r1_def PUT_fields str)
    have sz3: "GET_SIZE r3 (HDRP new) = ucast d"
      unfolding GET_SIZE_def hn g3 by (rule free_flags(1)[OF d32al])
    define j where "j = seg_index_nat (C - a)"
    have j: "j < 14" unfolding j_def using seg_index_less[of d] by (simp add: seg_index_unat ud)
    have cls: "seg_index (ucast (ucast d :: 32 word)) = j"
      by (simp add: dd seg_index_unat ud j_def)
    define h where "h = GET8 r (st + j * 8)"
    have sl3: "GET8 r3 (st + j * 8) = h"
    proof -
      have "st + j * 8 + 8 \<le> k" "st + j * 8 + 8 \<le> k + a" "st + j * 8 + 8 \<le> k + C - 4"
        using j kd sep by linarith+
      then show ?thesis
        by (simp add: r3_def r2_def r1_def GET8_PUT_other h_def)
    qed
    have lh3: "list_head r3 new = h"
      unfolding list_head_def sz3 get_seg_listp_def cls st3 by (simp add: DSIZE_def sl3)
    have hv: "h = 0 \<or> unat h = k + 4 \<or>
        (st + 112 \<le> unat h \<and> (unat h + 8 \<le> k \<or> k + 4 + C \<le> unat h))"
    proof -
      have j': "j < SEG_NUM" using j by (simp add: SEG_NUM_def)
      have e: "h = (if j = seg_index (ucast (GET_SIZE s (HDRP ptr))) \<and> GET_PREV s ptr = 0
              then (if GET_NEXT s ptr = 0 then 0 else ucast (GET_NEXT s ptr) + of_nat BASEADDR)
              else GET8 s (st + j * 8))"
        using eff(2)[OF j'] by (simp add: h_def st_def DSIZE_def)
      have g: "GET8 s (st + j * 8) = 0 \<or> unat (GET8 s (st + j * 8)) = k + 4 \<or>
          (st + 112 \<le> unat (GET8 s (st + j * 8)) \<and>
           (unat (GET8 s (st + j * 8)) + 8 \<le> k \<or> k + 4 + C \<le> unat (GET8 s (st + j * 8))))"
        using hd
        by (auto simp add: apart_def st_def HDRP_def WSIZE_def k SEG_NUM_def DSIZE_def j_def a_def)
      show ?thesis
        using e g nl' by (auto simp add: unat_offset split: if_splits)
    qed
    have dir3: "seg_list_start r3 + SEG_NUM * DSIZE + WSIZE \<le> new"
      using kd by (simp add: st3 new_def SEG_NUM_def DSIZE_def WSIZE_def)
    have head3: "list_head r3 new = 0 \<or>
        (seg_list_start r3 + SEG_NUM * DSIZE \<le> unat (list_head r3 new)
         \<and> (unat (list_head r3 new) + 4 \<le> HDRP new \<or> new + 8 \<le> unat (list_head r3 new)))"
      unfolding lh3 st3 hn using hv kd sep True a8(1)
      by (auto simp add: SEG_NUM_def DSIZE_def new_def)
    note ae = add_free_block_effect[OF dir3 head3, folded pe, unfolded lh3 st3]
    have fr: "GET (place ptr A s) q = GET r3 q"
      if "q = k \<or> q = k + a \<or> q = k + C - 4 \<or> q = k + C" for q
    proof (rule ae(5))
      show "st + SEG_NUM * DSIZE \<le> q"
        using that kd sep by (auto simp add: SEG_NUM_def DSIZE_def)
      show "q + 4 \<le> new \<or> new + 8 \<le> q"
        using that sep True by (auto simp add: new_def)
      show "h = 0 \<or> q + 4 \<le> unat h \<or> unat h + 4 \<le> q"
        using that hv sep True a8 by auto
    qed
    have w': "GET (place ptr A s) k = ucast A OR (pa OR 1)"
      "GET (place ptr A s) (k + a) = ucast d OR 2"
      "GET (place ptr A s) (k + C - 4) = ucast d"
      "GET (place ptr A s) (k + C) = GET s (k + C)"
      using fr[of k] fr[of "k + a"] fr[of "k + C - 4"] fr[of "k + C"] g3 by simp_all
    have stp: "seg_list_start (place ptr A s) = st"
      by (simp add: place_fields st_def)
    have c1: "GET_SIZE (place ptr A s) k = ucast A"
      unfolding GET_SIZE_def w' pa_def by (rule alloc_flags(1)[OF a32al])
    have c2: "GET_ALLOC (place ptr A s) k = 1"
      unfolding GET_ALLOC_def w' pa_def by (rule alloc_flags(2)[OF a32al])
    have c3: "GET_PREV_ALLOC (place ptr A s) ptr = GET_PREV_ALLOC s ptr"
      unfolding GET_PREV_ALLOC_def hk w' pa_def by (rule alloc_flags(3)[OF a32al])
    have c4: "GET_SIZE (place ptr A s) (k + a) = ucast d"
      unfolding GET_SIZE_def w' by (rule free_flags(1)[OF d32al])
    have c5: "GET_ALLOC (place ptr A s) (k + a) = 0"
      unfolding GET_ALLOC_def w' by (rule free_flags(2)[OF d32al])
    have c6: "GET_PREV_ALLOC (place ptr A s) new = 2"
      unfolding GET_PREV_ALLOC_def hn w' by (rule free_flags(3)[OF d32al])
    have c7: "GET_SIZE (place ptr A s) (k + C - 4) = ucast d"
      unfolding GET_SIZE_def w' by (rule free_flags(4)[OF d32al])
    have c8: "GET_ALLOC (place ptr A s) (k + C - 4) = 0"
      unfolding GET_ALLOC_def w' by (rule free_flags(5)[OF d32al])
    have c9: "GET8 (place ptr A s) (st + j * 8) = of_nat new"
      using ae(1) unfolding list_head_def hn c4 get_seg_listp_def cls stp
      by (simp add: DSIZE_def)
    have pk: "ptr + a = new" "ptr + C - DSIZE = k + C - 4" "HDRP (ptr + C) = k + C"
      using sep by (simp_all add: k new_def DSIZE_def HDRP_def WSIZE_def)
    have nb: "NEXT_BLKP (place ptr A s) ptr = new"
      unfolding NEXT_BLKP_def WSIZE_def hk' c1 a32 by (simp add: k new_def)
    have fb: "FTRP (place ptr A s) new = k + C - 4"
      unfolding FTRP_def hn c4 d32 using True a8 by (simp add: DSIZE_def new_def)
    show ?thesis
      unfolding a_def[symmetric] pk hk hn
      using True c1 c2 c3 c4 c5 c6 c7 c8 c9 nb fb ae(2) ae(3) w'(4)
      by (simp add: a32 d32 stp j_def h_def r_def st_def DSIZE_def)
  next
    case False
    have nge: "\<not> 2 * of_nat DSIZE \<le> csize - A"
      using False ud by (simp add: d_def[symmetric] DSIZE_def word_le_nat_alt)
    define r1 where "r1 = PUT k (c32 OR (pa OR 1)) r"
    have C8': "8 \<le> C" using a8 by simp
    have s1: "GET_SIZE r1 k = c32"
      unfolding GET_SIZE_def r1_def GET_PUT_same pa_def by (rule alloc_flags(1)[OF c32al])
    have n1: "NEXT_BLKP r1 ptr = k + 4 + C"
      by (simp add: NEXT_BLKP_def WSIZE_def k s1 uc32)
    have hn: "HDRP (k + 4 + C) = k + C" by (simp add: HDRP_def WSIZE_def)
    have g1: "GET r1 (k + C) = GET s (k + C)"
      using C8' rw[of "k + C"] by (simp add: r1_def GET_PUT_other)
    have pe: "place ptr A s = PUT (k + C) (GET s (k + C) OR 2) r1"
      unfolding place_def Let_def szs r_def[symmetric] using nge
      by (simp add: pre hk ucast_PACK cc r1_def[symmetric] n1 hn g1)
    have w': "GET (place ptr A s) k = c32 OR (pa OR 1)"
      "GET (place ptr A s) (k + C) = GET s (k + C) OR 2"
      using C8' by (simp_all add: pe r1_def GET_PUT_other GET_PUT_same)
    have c1: "GET_SIZE (place ptr A s) k = c32"
      unfolding GET_SIZE_def w' pa_def by (rule alloc_flags(1)[OF c32al])
    have c2: "GET_ALLOC (place ptr A s) k = 1"
      unfolding GET_ALLOC_def w' pa_def by (rule alloc_flags(2)[OF c32al])
    have c3: "GET_PREV_ALLOC (place ptr A s) ptr = GET_PREV_ALLOC s ptr"
      unfolding GET_PREV_ALLOC_def hk w' pa_def by (rule alloc_flags(3)[OF c32al])
    have nb: "NEXT_BLKP (place ptr A s) ptr = ptr + C"
      unfolding NEXT_BLKP_def WSIZE_def hk' c1 uc32 by simp
    have pk: "HDRP (ptr + C) = k + C"
      by (simp add: k HDRP_def WSIZE_def)
    show ?thesis
      unfolding a_def[symmetric] pk hk
      using False c1 c2 c3 nb w'(2) by (simp add: uc32)
  qed
qed


theorem place_block_witness:
  "unat (GET_SIZE (place (BASEADDR + 128) 16 (snd (mm_init fresh_heap))) (HDRP (BASEADDR + 128)))
     = 16
   \<and> GET_ALLOC (place (BASEADDR + 128) 16 (snd (mm_init fresh_heap))) (HDRP (BASEADDR + 128)) = 1
   \<and> unat (GET_SIZE (place (BASEADDR + 128) 16 (snd (mm_init fresh_heap)))
              (HDRP (BASEADDR + 144))) = 448
   \<and> GET_PREV_ALLOC (place (BASEADDR + 128) 16 (snd (mm_init fresh_heap))) (BASEADDR + 144) = 2
   \<and> GET8 (place (BASEADDR + 128) 16 (snd (mm_init fresh_heap))) (BASEADDR + 40)
       = of_nat (BASEADDR + 144)
   \<and> unat (GET_SIZE (place (BASEADDR + 128) 464 (snd (mm_init fresh_heap)))
              (HDRP (BASEADDR + 128))) = 464
   \<and> GET (place (BASEADDR + 128) 464 (snd (mm_init fresh_heap))) (HDRP (BASEADDR + 592)) = 3"
proof -
  define t where "t = snd (mm_init fresh_heap)"
  note f = mm_init_facts(2-)[OF fresh_heap_room, folded t_def]
  have dir: "seg_list_start t + SEG_NUM * DSIZE + WSIZE \<le> BASEADDR + 128"
    using f by (simp add: SEG_NUM_def DSIZE_def WSIZE_def)
  have C: "unat (GET_SIZE t (HDRP (BASEADDR + 128))) = 464"
    using f by (simp add: macro_defs BASEADDR_def)
  have l: "GET_PREV t (BASEADDR + 128) = 0" "GET_NEXT t (BASEADDR + 128) = 0"
    using f by (simp_all add: GET_PREV_def GET_NEXT_def WSIZE_def BASEADDR_def)
  have A1: "unat (16 :: 64 word) mod 8 = 0" "0 < unat (16 :: 64 word)" "unat (16 :: 64 word) \<le> 464"
    and A2: "unat (464 :: 64 word) mod 8 = 0" "0 < unat (464 :: 64 word)"
      "unat (464 :: 64 word) \<le> 464"
    by simp_all
  have u: "unat (of_nat BASEADDR + 128 :: 64 word) = BASEADDR + 128"
    by (simp add: BASEADDR_def)
  have h1: "GET8 t (seg_list_start t + seg_index_nat (464 - unat (16 :: 64 word)) * DSIZE) = 0
      \<or> unat (GET8 t (seg_list_start t + seg_index_nat (464 - unat (16 :: 64 word)) * DSIZE))
          = BASEADDR + 128
      \<or> apart t (BASEADDR + 128) 464
          (unat (GET8 t (seg_list_start t + seg_index_nat (464 - unat (16 :: 64 word)) * DSIZE)))"
    using f by (simp add: seg_index_nat_def DSIZE_def u)
  have h2: "GET8 t (seg_list_start t + seg_index_nat (464 - unat (464 :: 64 word)) * DSIZE) = 0
      \<or> unat (GET8 t (seg_list_start t + seg_index_nat (464 - unat (464 :: 64 word)) * DSIZE))
          = BASEADDR + 128
      \<or> apart t (BASEADDR + 128) 464
          (unat (GET8 t (seg_list_start t + seg_index_nat (464 - unat (464 :: 64 word)) * DSIZE)))"
    using f(12)[simplified] f(1) by (simp add: seg_index_nat_def DSIZE_def)
  from place_block[OF dir C A1 disjI1[OF l(1)] disjI1[OF l(2)] h1]
    place_block[OF dir C A2 disjI1[OF l(1)] disjI1[OF l(2)] h2]
  show ?thesis
    unfolding t_def[symmetric]
    using f by (simp add: place_fields seg_index_nat_def DSIZE_def HDRP_def WSIZE_def
        BASEADDR_def)
qed

end
